theory Spec2Isabelle
  imports Main
begin

section \<open>Errors\<close>

text \<open>
  Every \<^verbatim>\<open>throw\<close> of the sources and every runtime exception of the host language that
  the modelled code can run into is a value of this type; a function that can raise
  returns \<open>error + 'a\<close> with \<open>Inl\<close> for the exception.
\<close>

datatype error =
    TypeError          \<comment> \<open>property access on \<^verbatim>\<open>undefined\<close>/\<^verbatim>\<open>null\<close>, call of a non-function\<close>
  | LockedWrite        \<comment> \<open>\<^verbatim>\<open>Model._writeSlot: cannot write property in locked world!\<close>\<close>
  | CommitConflict     \<comment> \<open>\<^verbatim>\<open>Model "..." failed serializability check!\<close>\<close>
  | LockedParent       \<comment> \<open>\<^verbatim>\<open>World.commit: parent world is locked and have more than 1 children!\<close>\<close>
  | UnknownRef         \<comment> \<open>\<^verbatim>\<open>Unknown reference ...!\<close>\<close>
  | UnknownPrototype   \<comment> \<open>\<^verbatim>\<open>Indexer: unknown object prototype ...\<close>\<close>
  | Diverges           \<comment> \<open>not an exception: the loop never ends (see the fuel below)\<close>

definition bindE :: "error + 'a \<Rightarrow> ('a \<Rightarrow> error + 'b) \<Rightarrow> error + 'b" where
  "bindE m f = (case m of Inl e \<Rightarrow> Inl e | Inr x \<Rightarrow> f x)"

lemma bindE_simps [simp]:
  "bindE (Inl e) f = Inl e"
  "bindE (Inr x) f = f x"
  by (simp_all add: bindE_def)

lemma bindE_cong [fundef_cong]:
  "m = m' \<Longrightarrow> (\<And>x. m' = Inr x \<Longrightarrow> f x = f' x) \<Longrightarrow> bindE m f = bindE m' f'"
  by (cases m') (simp_all add: bindE_def)

lemma bindE_eq_Inr:
  "bindE m f = Inr y \<longleftrightarrow> (\<exists>x. m = Inr x \<and> f x = Inr y)"
  by (cases m) simp_all

text \<open>An assignment \<^verbatim>\<open>a[i] = v\<close> to a host array: beyond the end the array grows and
  the skipped places read as \<^verbatim>\<open>undefined\<close> (given as \<open>u\<close>).\<close>

definition arr_set :: "'a \<Rightarrow> 'a list \<Rightarrow> nat \<Rightarrow> 'a \<Rightarrow> 'a list" where
  "arr_set u xs i v = (if i < length xs then xs[i := v] else xs @ replicate (i - length xs) u @ [v])"

section \<open>Stream (model.ts, class Stream)\<close>

text \<open>
  A subscriber is a closure. Its effect is modelled as a transformer of an observer state
  \<open>'s\<close> that lives outside the stream (a log of calls, a tick counter, ...); the wrapper
  closure that \<^verbatim>\<open>subscribe\<close> creates is identified by a fresh number, which is what
  \<^verbatim>\<open>indexOf(wrapper)\<close> compares. \<^verbatim>\<open>_current\<close> is \<^verbatim>\<open>T | undefined\<close>: \<open>None\<close> is
  \<^verbatim>\<open>undefined\<close>, and a pushed value of type \<open>'a\<close> is a defined value.
\<close>

record ('a, 's) stream =
  subscribers :: "(nat \<times> ('a \<Rightarrow> 's \<Rightarrow> 's)) list"
  current :: "'a option"
  fresh :: nat

definition new_stream :: "('a, 's) stream" where
  "new_stream = \<lparr>subscribers = [], current = None, fresh = 0\<rparr>"

fun call_all :: "(nat \<times> ('a \<Rightarrow> 's \<Rightarrow> 's)) list \<Rightarrow> 'a \<Rightarrow> 's \<Rightarrow> 's" where
  "call_all [] nxt s = s"
| "call_all ((k, f) # fs) nxt s = call_all fs nxt (f nxt s)"

definition push :: "'a \<Rightarrow> ('a, 's) stream \<times> 's \<Rightarrow> ('a, 's) stream \<times> 's" where
  "push nxt = (\<lambda>(st, s). (st\<lparr>current := Some nxt\<rparr>, call_all (subscribers st) nxt s))"

definition subscribe ::
  "('a \<Rightarrow> 's \<Rightarrow> 's) \<Rightarrow> ('a, 's) stream \<times> 's \<Rightarrow> nat \<times> ('a, 's) stream \<times> 's" where
  "subscribe fn = (\<lambda>(st, s).
     let wrapper = (fresh st, fn);
         st' = st\<lparr>subscribers := subscribers st @ [wrapper], fresh := Suc (fresh st)\<rparr>
     in (fst wrapper, st',
         (case current st of Some c \<Rightarrow> fn c s | None \<Rightarrow> s)))"

text \<open>\<^verbatim>\<open>indexOf\<close> returns \<open>-1\<close> for a wrapper that is no longer there, and
  \<^verbatim>\<open>splice(-1, 1)\<close> removes the last element.\<close>

fun index_of :: "nat \<Rightarrow> (nat \<times> 'b) list \<Rightarrow> nat option" where
  "index_of k [] = None"
| "index_of k ((k', f) # fs) =
     (if k = k' then Some 0 else map_option Suc (index_of k fs))"

definition unsubscribe :: "nat \<Rightarrow> ('a, 's) stream \<Rightarrow> ('a, 's) stream" where
  "unsubscribe k st =
     (case index_of k (subscribers st) of
        Some i \<Rightarrow> st\<lparr>subscribers := take i (subscribers st) @ drop (Suc i) (subscribers st)\<rparr>
      | None \<Rightarrow> st\<lparr>subscribers := butlast (subscribers st)\<rparr>)"

section \<open>WaveMergeState (model.ts)\<close>

text \<open>
  Rates are the integers the \<^verbatim>\<open>waveMerge\<close> decorator is given; an absent rate
  (\<^verbatim>\<open>undefined\<close>) is \<open>None\<close>. The field \<^verbatim>\<open>_rate\<close> starts at 0, is set to 1 and
  incremented by 1. A rate is a number of JavaScript, and the model has the integers among
  them: a rate with a fraction is outside of it.
\<close>

record wave_merge_state =
  wtag :: "string list"
  wrate :: int

fun split_colon :: "string \<Rightarrow> string list" where
  "split_colon [] = [[]]"
| "split_colon (c # cs) =
     (if c = CHR '':'' then [] # split_colon cs
      else (case split_colon cs of [] \<Rightarrow> [[c]] | w # ws \<Rightarrow> (c # w) # ws))"

definition digit_char :: "nat \<Rightarrow> char" where
  "digit_char d = char_of (48 + d)"

function digits10 :: "nat \<Rightarrow> string" where
  "digits10 n = (if n < 10 then [digit_char n] else digits10 (n div 10) @ [digit_char (n mod 10)])"
  by pat_completeness auto
termination
  by (relation "measure id") auto

declare digits10.simps [simp del]

text \<open>\<^verbatim>\<open>rate.toString()\<close> on an integer of magnitude below \<open>10\<^sup>2\<^sup>1\<close>: the decimal digits.
  From \<open>10\<^sup>2\<^sup>1\<close> on JavaScript prints a mantissa and an exponent (\<^verbatim>\<open>1e+21\<close>), which this
  function does not; what is proved below about the tag of a call holds for any string
  that stands for the rate.\<close>

definition toString :: "int \<Rightarrow> string" where
  "toString i = (if i < 0 then CHR ''-'' # digits10 (nat (- i)) else digits10 (nat i))"

definition parseToken :: "string \<Rightarrow> int option \<Rightarrow> string \<Rightarrow> string" where
  "parseToken ident rate t =
     (if t = ''id'' then ident
      else if t = ''rate'' then (case rate of Some r \<Rightarrow> toString r | None \<Rightarrow> ''*'')
      else t)"

definition parseTag :: "string \<Rightarrow> string \<Rightarrow> int option \<Rightarrow> string list" where
  "parseTag ident tagString rate = map (parseToken ident rate) (split_colon tagString)"

text \<open>The loop of \<^verbatim>\<open>_canMerge\<close> over two arrays of equal length.\<close>

fun tags_match :: "string list \<Rightarrow> string list \<Rightarrow> bool" where
  "tags_match (t # ts) (u # us) = (if t \<noteq> ''*'' \<and> t \<noteq> u then False else tags_match ts us)"
| "tags_match _ _ = True"

text \<open>\<^verbatim>\<open>rate <= this._rate\<close> is false when \<^verbatim>\<open>rate\<close> is \<^verbatim>\<open>undefined\<close>.\<close>

definition canMerge :: "wave_merge_state \<Rightarrow> string list \<Rightarrow> int option \<Rightarrow> bool" where
  "canMerge st tg rate =
     (if (case rate of Some r \<Rightarrow> r \<le> wrate st | None \<Rightarrow> False) then False
      else if length tg \<noteq> length (wtag st) then False
      else tags_match tg (wtag st))"

definition merge :: "wave_merge_state \<Rightarrow> string \<Rightarrow> string \<Rightarrow> int option \<Rightarrow> bool \<times> wave_merge_state" where
  "merge st ident tagString rate =
     (let tg = parseTag ident tagString rate in
      if \<not> canMerge st tg rate then (False, \<lparr>wtag = tg, wrate = 1\<rparr>)
      else (True, \<lparr>wtag = tg, wrate = wrate st + 1\<rparr>))"

section \<open>Worlds, models and slots (model.ts)\<close>

text \<open>
  A slot holds any value of the host language. The model distinguishes the token
  \<^verbatim>\<open>none\<close>, \<^verbatim>\<open>undefined\<close>, a bare \<^verbatim>\<open>Ref\<close> (by its \<^verbatim>\<open>_id\<close>), a \<^verbatim>\<open>Model\<close>
  object (which is a \<^verbatim>\<open>Ref\<close> too) and all other values \<open>Prim x\<close>. A \<^verbatim>\<open>Model\<close> object is
  identified by the world that holds it and its id: a world never replaces a model it
  holds, so the pair stands for the object's identity.
\<close>

datatype 'v val = NoneTok | Undefined | Prim 'v | RefV string | ModelV nat string

record 'v model =
  reads :: "'v val list"
  writes :: "'v val list"

type_synonym mref = "nat \<times> string"

type_synonym 'v cache = "(string \<times> (mref \<times> 'v val list)) list"

text \<open>Worlds are objects on a heap: the address of a world is its position in \<open>worlds\<close>.
  The key stream is an object shared along the parent chain, kept in \<open>keyStreams\<close>.
  A \<^verbatim>\<open>Map\<close> or \<^verbatim>\<open>Set\<close> is the list of its entries in insertion order.\<close>

record 'v world =
  parent :: "nat option"
  models :: "(string \<times> 'v model) list"
  keyStream :: nat
  children :: "nat list"
  locked :: bool
  lookupCache :: "'v cache option"

record 'v store =
  worlds :: "'v world list"
  keyStreams :: "nat list"

definition upd_world :: "nat \<Rightarrow> ('v world \<Rightarrow> 'v world) \<Rightarrow> 'v store \<Rightarrow> 'v store" where
  "upd_world w f s = s\<lparr>worlds := (worlds s)[w := f (worlds s ! w)]\<rparr>"

fun map_set :: "'k \<Rightarrow> 'x \<Rightarrow> ('k \<times> 'x) list \<Rightarrow> ('k \<times> 'x) list" where
  "map_set k v [] = [(k, v)]"
| "map_set k v ((k', v') # kvs) = (if k = k' then (k, v) # kvs else (k', v') # map_set k v kvs)"

definition set_add :: "'k \<Rightarrow> 'k list \<Rightarrow> 'k list" where
  "set_add k ks = (if k \<in> set ks then ks else ks @ [k])"

definition js_nth :: "'v val list \<Rightarrow> nat \<Rightarrow> 'v val" where
  "js_nth xs i = (if i < length xs then xs ! i else Undefined)"

definition new_World :: "nat option \<Rightarrow> 'v store \<Rightarrow> nat \<times> 'v store" where
  "new_World par s =
     (let w = length (worlds s);
          (ks, s1) = (case par of
                        Some p \<Rightarrow> (keyStream (worlds s ! p), s)
                      | None \<Rightarrow> (length (keyStreams s), s\<lparr>keyStreams := keyStreams s @ [0]\<rparr>));
          s2 = s1\<lparr>worlds := worlds s1 @
                 [\<lparr>parent = par, models = [], keyStream = ks, children = [],
                   locked = False, lookupCache = None\<rparr>]\<rparr>
      in (w, case par of
               Some p \<Rightarrow> upd_world p (\<lambda>x. x\<lparr>children := set_add w (children x)\<rparr>) s2
             | None \<Rightarrow> s2))"

definition World_detach :: "nat \<Rightarrow> 'v store \<Rightarrow> 'v store" where
  "World_detach w s =
     (case parent (worlds s ! w) of
        None \<Rightarrow> s
      | Some p \<Rightarrow>
          upd_world w (\<lambda>x. x\<lparr>parent := None\<rparr>)
            (upd_world p (\<lambda>x. x\<lparr>children := removeAll w (children x)\<rparr>) s))"

definition World_set_parent :: "nat \<Rightarrow> nat \<Rightarrow> 'v store \<Rightarrow> 'v store" where
  "World_set_parent w p s =
     upd_world p (\<lambda>x. x\<lparr>children := set_add w (children x)\<rparr>)
       (upd_world w (\<lambda>x. x\<lparr>parent := Some p\<rparr>) (World_detach w s))"

subsection \<open>Lookup\<close>

definition World_findOwn :: "'v store \<Rightarrow> nat \<Rightarrow> string \<Rightarrow> 'v model option" where
  "World_findOwn s w ident = map_of (models (worlds s ! w)) ident"

definition LookupCache_getSlot :: "'v cache \<Rightarrow> string \<Rightarrow> nat \<Rightarrow> 'v val" where
  "LookupCache_getSlot c ident i =
     (case map_of c ident of Some (m, slots) \<Rightarrow> js_nth slots i | None \<Rightarrow> Undefined)"

definition LookupCache_getBinding :: "'v cache \<Rightarrow> string \<Rightarrow> mref option" where
  "LookupCache_getBinding c ident = map_option fst (map_of c ident)"

text \<open>
  The loops that walk up the parent chain read the store without changing the chain. They
  get as fuel one more than the number of worlds: a walk that needs more steps has come
  back to a world it has left, and runs forever (\<open>Inl Diverges\<close>).
\<close>

definition chain_fuel :: "'v store \<Rightarrow> nat" where
  "chain_fuel s = Suc (length (worlds s))"

fun findNearest_loop :: "nat \<Rightarrow> 'v store \<Rightarrow> nat option \<Rightarrow> string \<Rightarrow> error + mref option" where
  "findNearest_loop 0 s world ident = Inl Diverges"
| "findNearest_loop (Suc n) s None ident = Inr None"
| "findNearest_loop (Suc n) s (Some w) ident =
     (case World_findOwn s w ident of
        Some own \<Rightarrow> Inr (Some (w, ident))
      | None \<Rightarrow>
          (case lookupCache (worlds s ! w) of
             Some c \<Rightarrow> if locked (worlds s ! w) then Inr (LookupCache_getBinding c ident)
                       else findNearest_loop n s (parent (worlds s ! w)) ident
           | None \<Rightarrow> findNearest_loop n s (parent (worlds s ! w)) ident))"

definition World_findNearest :: "'v store \<Rightarrow> nat \<Rightarrow> string \<Rightarrow> error + mref option" where
  "World_findNearest s w ident = findNearest_loop (chain_fuel s) s (Some w) ident"

text \<open>The fields of a \<^verbatim>\<open>Model\<close> object, read through its identity.\<close>

definition deref :: "'v store \<Rightarrow> mref \<Rightarrow> 'v model" where
  "deref s r = (case World_findOwn s (fst r) (snd r) of
                  Some m \<Rightarrow> m | None \<Rightarrow> \<lparr>reads = [], writes = []\<rparr>)"

definition slotCount :: "'v model \<Rightarrow> nat" where
  "slotCount m = length (reads m)"

text \<open>\<^verbatim>\<open>new constructor(id, world)\<close>: both arrays hold \<^verbatim>\<open>none\<close>; \<open>n\<close> is the
  \<^verbatim>\<open>slotCount\<close> of the class.\<close>

definition new_Model :: "nat \<Rightarrow> 'v model" where
  "new_Model n = \<lparr>reads = replicate n NoneTok, writes = replicate n NoneTok\<rparr>"

definition World_add :: "nat \<Rightarrow> string \<Rightarrow> nat \<Rightarrow> 'v store \<Rightarrow> 'v store" where
  "World_add w ident n s = upd_world w (\<lambda>x. x\<lparr>models := map_set ident (new_Model n) (models x)\<rparr>) s"

definition put_model :: "mref \<Rightarrow> 'v model \<Rightarrow> 'v store \<Rightarrow> 'v store" where
  "put_model r m s = upd_world (fst r) (\<lambda>x. x\<lparr>models := map_set (snd r) m (models x)\<rparr>) s"

text \<open>A \<^verbatim>\<open>BoundRef\<close> is a string, or an object: a \<^verbatim>\<open>Ref\<close> or a \<^verbatim>\<open>Model\<close>. \<^verbatim>\<open>Ref.id\<close>
  gives the id that it stands for (\<open>bref_id\<close>). The test \<^verbatim>\<open>!ref\<close> is true of the empty string and of
  no object.\<close>

datatype bref = IdString string | RefObject string

fun bref_id :: "bref \<Rightarrow> string" where
  "bref_id (IdString i) = i"
| "bref_id (RefObject i) = i"

fun falsy :: "bref \<Rightarrow> bool" where
  "falsy (IdString i) \<longleftrightarrow> i = []"
| "falsy (RefObject i) \<longleftrightarrow> False"

text \<open>\<^verbatim>\<open>World.bind\<close>. It returns \<^verbatim>\<open>undefined\<close> for a falsy \<^verbatim>\<open>ref\<close>. The shadow it creates
  has the class of the model found, hence its number of slots.\<close>

definition World_bind :: "nat \<Rightarrow> bref \<Rightarrow> 'v store \<Rightarrow> error + ('v val \<times> 'v store)" where
  "World_bind w ref s =
     (if falsy ref then Inr (Undefined, s)
      else
        bindE (World_findNearest s w (bref_id ref)) (\<lambda>r.
          case r of
            None \<Rightarrow> Inl UnknownRef
          | Some m \<Rightarrow>
              if fst m = w then Inr (ModelV w (snd m), s)
              else Inr (ModelV w (bref_id ref),
                        World_add w (bref_id ref) (slotCount (deref s m)) s)))"

text \<open>\<^verbatim>\<open>_upcast\<close> binds the values that are instances of \<^verbatim>\<open>Ref\<close>, which are objects.\<close>

definition upcast :: "nat \<Rightarrow> 'v val \<Rightarrow> 'v store \<Rightarrow> error + ('v val \<times> 'v store)" where
  "upcast w v s =
     (case v of
        RefV i \<Rightarrow> World_bind w (RefObject i) s
      | ModelV w' i \<Rightarrow> World_bind w (RefObject i) s
      | _ \<Rightarrow> Inr (v, s))"

definition downcast :: "'v val \<Rightarrow> 'v val" where
  "downcast v = (case v of RefV i \<Rightarrow> RefV i | ModelV w' i \<Rightarrow> RefV i | _ \<Rightarrow> v)"

subsection \<open>Slots\<close>

definition Model_getOwnSlot :: "mref \<Rightarrow> nat \<Rightarrow> 'v store \<Rightarrow> error + ('v val \<times> 'v store)" where
  "Model_getOwnSlot r index s =
     (let m = deref s r in
      if index \<ge> slotCount m then Inr (NoneTok, s)
      else if js_nth (writes m) index \<noteq> NoneTok then upcast (fst r) (js_nth (writes m) index) s
      else if js_nth (reads m) index \<noteq> NoneTok then upcast (fst r) (js_nth (reads m) index) s
      else Inr (NoneTok, s))"

definition Model_getOwnSlots :: "'v model \<Rightarrow> 'v val list" where
  "Model_getOwnSlots m =
     fold (\<lambda>i slots. if js_nth (writes m) i = NoneTok then slots
                      else arr_set Undefined slots i (js_nth (writes m) i))
          [0 ..< length (writes m)] (reads m)"

definition Model_isModified :: "'v model \<Rightarrow> bool" where
  "Model_isModified m = (\<exists>i \<in> set [0 ..< slotCount m]. js_nth (writes m) i \<noteq> NoneTok)"

definition World_getOwnSlot :: "nat \<Rightarrow> string \<Rightarrow> nat \<Rightarrow> 'v store \<Rightarrow> error + ('v val \<times> 'v store)" where
  "World_getOwnSlot w ident index s =
     (case World_findOwn s w ident of
        None \<Rightarrow> Inr (NoneTok, s)
      | Some m \<Rightarrow> Model_getOwnSlot (w, ident) index s)"

fun getSlot_loop ::
  "nat \<Rightarrow> nat option \<Rightarrow> string \<Rightarrow> nat \<Rightarrow> 'v store \<Rightarrow> error + ('v val \<times> 'v store)" where
  "getSlot_loop 0 world ident index s = Inl Diverges"
| "getSlot_loop (Suc n) None ident index s = Inr (Undefined, s)"
| "getSlot_loop (Suc n) (Some w) ident index s =
     bindE (World_getOwnSlot w ident index s) (\<lambda>(own, s').
       if own \<noteq> NoneTok then Inr (own, s')
       else (case lookupCache (worlds s' ! w) of
               Some c \<Rightarrow> if locked (worlds s' ! w) then Inr (LookupCache_getSlot c ident index, s')
                         else getSlot_loop n (parent (worlds s' ! w)) ident index s'
             | None \<Rightarrow> getSlot_loop n (parent (worlds s' ! w)) ident index s'))"

definition World_getSlot :: "nat \<Rightarrow> string \<Rightarrow> nat \<Rightarrow> 'v store \<Rightarrow> error + ('v val \<times> 'v store)" where
  "World_getSlot w ident index s = getSlot_loop (chain_fuel s) (Some w) ident index s"

definition Model_getParentSlot :: "mref \<Rightarrow> nat \<Rightarrow> 'v store \<Rightarrow> error + ('v val \<times> 'v store)" where
  "Model_getParentSlot r index s =
     (case parent (worlds s ! fst r) of
        Some p \<Rightarrow> World_getSlot p (snd r) index s
      | None \<Rightarrow> Inr (Undefined, s))"

definition Model_readSlot :: "mref \<Rightarrow> nat \<Rightarrow> 'v store \<Rightarrow> error + ('v val \<times> 'v store)" where
  "Model_readSlot r index s =
     (if index \<ge> slotCount (deref s r) then Inr (Undefined, s)
      else bindE (Model_getOwnSlot r index s) (\<lambda>(own, s1).
        if own \<noteq> NoneTok then Inr (own, s1)
        else bindE (Model_getParentSlot r index s1) (\<lambda>(v, s2).
          let m = deref s2 r;
              s3 = put_model r (m\<lparr>reads := arr_set Undefined (reads m) index (downcast v)\<rparr>) s2
          in upcast (fst r) v s3)))"

definition Model_writeSlot :: "mref \<Rightarrow> nat \<Rightarrow> 'v val \<Rightarrow> 'v store \<Rightarrow> error + ('v val \<times> 'v store)" where
  "Model_writeSlot r index v s =
     (if index \<ge> slotCount (deref s r) then Inr (Undefined, s)
      else if locked (worlds s ! fst r) then Inl LockedWrite
      else let m = deref s r;
               s1 = put_model r (m\<lparr>writes := arr_set Undefined (writes m) index (downcast v)\<rparr>) s
           in upcast (fst r) v s1)"


subsection \<open>Locking\<close>

lemma filter_update_less:
  "i < length xs \<Longrightarrow> P (xs ! i) \<Longrightarrow> \<not> P y \<Longrightarrow>
   length (filter P (xs[i := y])) < length (filter P xs)"
proof (induction xs arbitrary: i)
  case Nil
  then show ?case by simp
next
  case (Cons x xs)
  show ?case
  proof (cases i)
    case 0
    with Cons.prems show ?thesis by simp
  next
    case (Suc j)
    with Cons.prems Cons.IH [of j] show ?thesis by simp
  qed
qed

text \<open>The loop of \<^verbatim>\<open>World.lock\<close>. Every round locks a world that was not locked, so
  the loop ends on any store, also on a cyclic parent chain.\<close>

function lock_loop :: "'v store \<Rightarrow> nat option \<Rightarrow> 'v store" where
  "lock_loop s world =
     (case world of
        None \<Rightarrow> s
      | Some w \<Rightarrow>
          if w < length (worlds s) \<and> \<not> locked (worlds s ! w)
          then lock_loop (upd_world w (\<lambda>x. x\<lparr>locked := True\<rparr>) s) (parent (worlds s ! w))
          else s)"
  by pat_completeness auto
termination
  by (relation "measure (\<lambda>(s, world). length (filter (\<lambda>x. \<not> locked x) (worlds s)))")
     (auto simp: upd_world_def intro!: filter_update_less)

declare lock_loop.simps [simp del]

fun path_loop :: "nat \<Rightarrow> 'v store \<Rightarrow> nat option \<Rightarrow> nat list \<Rightarrow> error + (nat list \<times> nat option)" where
  "path_loop 0 s world path = Inl Diverges"
| "path_loop (Suc n) s None path = Inr (path, None)"
| "path_loop (Suc n) s (Some w) path =
     (if lookupCache (worlds s ! w) = None
      then path_loop n s (parent (worlds s ! w)) (path @ [w])
      else Inr (path, Some w))"

text \<open>
  \<^verbatim>\<open>Map.forEach\<close> and \<^verbatim>\<open>for (... of map.values())\<close> visit the entries that are added
  while the loop runs. The loop over the models of world \<open>w\<close> therefore reads the
  current map at each step. Binding adds to a world only ids that some world already
  holds, so the number of models in the store bounds the number of steps.
\<close>

definition models_fuel :: "'v store \<Rightarrow> nat" where
  "models_fuel s = Suc (sum_list (map (\<lambda>x. length (models x)) (worlds s)))"

fun forEachModel ::
  "nat \<Rightarrow> (string \<Rightarrow> 'acc \<Rightarrow> 'v store \<Rightarrow> error + ('acc \<times> 'v store)) \<Rightarrow> nat \<Rightarrow> nat \<Rightarrow>
   'acc \<Rightarrow> 'v store \<Rightarrow> error + ('acc \<times> 'v store)" where
  "forEachModel 0 f w k acc s = Inl Diverges"
| "forEachModel (Suc n) f w k acc s =
     (if k < length (models (worlds s ! w))
      then bindE (f (fst (models (worlds s ! w) ! k)) acc s)
             (\<lambda>(acc', s'). forEachModel n f w (Suc k) acc' s')
      else Inr (acc, s))"

fun put_slots ::
  "nat list \<Rightarrow> mref \<Rightarrow> 'v val list \<Rightarrow> 'v store \<Rightarrow> error + ('v val list \<times> 'v store)" where
  "put_slots [] r slots s = Inr (slots, s)"
| "put_slots (i # is) r slots s =
     bindE (Model_getOwnSlot r i s) (\<lambda>(v, s').
       put_slots is r (if v \<noteq> NoneTok then arr_set Undefined slots i v else slots) s')"

definition LookupCache_put :: "mref \<Rightarrow> 'v cache \<Rightarrow> 'v store \<Rightarrow> error + ('v cache \<times> 'v store)" where
  "LookupCache_put r c s =
     (case map_of c (snd r) of
        None \<Rightarrow> Inr (c @ [(snd r, (r, Model_getOwnSlots (deref s r)))], s)
      | Some (m, slots) \<Rightarrow>
          bindE (put_slots [0 ..< slotCount (deref s r)] r slots s) (\<lambda>(slots', s').
            Inr (map_set (snd r) (r, slots') c, s')))"

fun build_cache :: "nat list \<Rightarrow> 'v cache \<Rightarrow> 'v store \<Rightarrow> error + ('v cache \<times> 'v store)" where
  "build_cache [] c s = Inr (c, s)"
| "build_cache (w # ws) c s =
     bindE (forEachModel (models_fuel s) (\<lambda>ident. LookupCache_put (w, ident)) w 0 c s)
       (\<lambda>(c', s'). build_cache ws c' s')"

definition lookupCacheFactor :: nat where
  "lookupCacheFactor = 64"

definition World_requestLookupCache :: "nat \<Rightarrow> 'v store \<Rightarrow> error + 'v store" where
  "World_requestLookupCache w s =
     (if \<not> locked (worlds s ! w) then Inr s
      else bindE (path_loop (chain_fuel s) s (parent (worlds s ! w)) []) (\<lambda>(path, stop).
        if length path < lookupCacheFactor then Inr s
        else
          let (cache, path', s1) =
                (case stop of
                   Some a \<Rightarrow>
                     (case lookupCache (worlds s ! a) of Some c \<Rightarrow> c | None \<Rightarrow> [],
                      path @ [a],
                      upd_world a (\<lambda>x. x\<lparr>lookupCache := None\<rparr>) s)
                 | None \<Rightarrow> ([], path, s))
          in bindE (build_cache (rev path') cache s1) (\<lambda>(cache', s2).
               Inr (upd_world w (\<lambda>x. x\<lparr>lookupCache := Some cache'\<rparr>) s2))))"

definition World_lock :: "nat \<Rightarrow> 'v store \<Rightarrow> error + 'v store" where
  "World_lock w s = World_requestLookupCache w (lock_loop s (Some w))"

text \<open>The queue of \<^verbatim>\<open>World.unlock\<close>; \<^verbatim>\<open>pop\<close> takes the last element.\<close>

function unlock_loop :: "'v store \<Rightarrow> nat list \<Rightarrow> 'v store" where
  "unlock_loop s queue =
     (if queue = [] then s
      else let w = last queue; q = butlast queue in
        if w < length (worlds s) \<and> locked (worlds s ! w)
        then unlock_loop (upd_world w (\<lambda>x. x\<lparr>locked := False, lookupCache := None\<rparr>) s)
               (q @ children (worlds s ! w))
        else unlock_loop s q)"
  by pat_completeness auto
termination
  by (relation "measures [\<lambda>(s, queue). length (filter locked (worlds s)),
                          \<lambda>(s, queue). length queue]")
     (auto simp: upd_world_def intro!: filter_update_less)

declare unlock_loop.simps [simp del]

definition World_unlock :: "nat \<Rightarrow> 'v store \<Rightarrow> 'v store" where
  "World_unlock w s = (if \<not> locked (worlds s ! w) then s else unlock_loop s [w])"


subsection \<open>Commit\<close>

text \<open>\<^verbatim>\<open>instanceof Ref\<close>, \<^verbatim>\<open>Ref.id\<close> and \<^verbatim>\<open>Ref.equal\<close>. For a value that is not a
  \<^verbatim>\<open>Ref\<close>, \<^verbatim>\<open>Ref.id\<close> returns the value itself, which \<^verbatim>\<open>equal\<close> then compares with
  the id string; the model takes such a comparison as unequal.\<close>

definition Ref_id :: "'v val \<Rightarrow> string option" where
  "Ref_id v = (case v of RefV i \<Rightarrow> Some i | ModelV w i \<Rightarrow> Some i | _ \<Rightarrow> None)"

definition Ref_equal :: "'v val \<Rightarrow> 'v val \<Rightarrow> bool" where
  "Ref_equal my other =
     (case (Ref_id my, Ref_id other) of (Some a, Some b) \<Rightarrow> a = b | _ \<Rightarrow> False)"

text \<open>The operator \<^verbatim>\<open>==\<close>: two objects are equal when they are the same object. Values
  \<open>Prim\<close> are compared by the equality of \<open>'v\<close>; a bare \<^verbatim>\<open>Ref\<close> is made anew by every
  \<^verbatim>\<open>Ref.from\<close>, so that two of them are different objects.\<close>

fun loose_eq :: "'v val \<Rightarrow> 'v val \<Rightarrow> bool" where
  "loose_eq NoneTok NoneTok = True"
| "loose_eq Undefined Undefined = True"
| "loose_eq (Prim a) (Prim b) = (a = b)"
| "loose_eq (ModelV w i) (ModelV w' i') = (w = w' \<and> i = i')"
| "loose_eq _ _ = False"

fun committable_loop ::
  "nat list \<Rightarrow> mref \<Rightarrow> mref \<Rightarrow> 'v store \<Rightarrow> error + (bool \<times> 'v store)" where
  "committable_loop [] r pr s = Inr (True, s)"
| "committable_loop (i # is) r pr s =
     (if js_nth (reads (deref s r)) i = NoneTok then committable_loop is r pr s
      else bindE (upcast (fst r) (js_nth (reads (deref s r)) i) s) (\<lambda>(my, s1).
           bindE (Model_getOwnSlot pr i s1) (\<lambda>(other, s2).
             if Ref_id my \<noteq> None \<and> \<not> Ref_equal my other then Inr (False, s2)
             else if \<not> loose_eq my other then Inr (False, s2)
             else committable_loop is r pr s2)))"

definition Model_committable :: "mref \<Rightarrow> 'v store \<Rightarrow> error + (bool \<times> 'v store)" where
  "Model_committable r s =
     (case parent (worlds s ! fst r) of
        None \<Rightarrow> Inr (True, s)
      | Some p \<Rightarrow>
          (case World_findOwn s p (snd r) of
             None \<Rightarrow> Inr (True, s)
           | Some pm \<Rightarrow> committable_loop [0 ..< slotCount (deref s r)] r (p, snd r) s))"

fun commit_writes :: "nat list \<Rightarrow> mref \<Rightarrow> mref \<Rightarrow> 'v store \<Rightarrow> error + 'v store" where
  "commit_writes [] r pr s = Inr s"
| "commit_writes (i # is) r pr s =
     (if js_nth (writes (deref s r)) i = NoneTok then commit_writes is r pr s
      else bindE (upcast (fst r) (js_nth (writes (deref s r)) i) s) (\<lambda>(update, s1).
        let pm = deref s1 pr;
            s2 = put_model pr (pm\<lparr>writes := arr_set Undefined (writes pm) i (downcast update)\<rparr>) s1;
            m = deref s2 r;
            s3 = put_model r (m\<lparr>writes := arr_set Undefined (writes m) i NoneTok\<rparr>) s2
        in commit_writes is r pr s3))"

fun commit_reads :: "nat list \<Rightarrow> mref \<Rightarrow> mref \<Rightarrow> 'v store \<Rightarrow> error + 'v store" where
  "commit_reads [] r pr s = Inr s"
| "commit_reads (i # is) r pr s =
     (if js_nth (reads (deref s pr)) i \<noteq> NoneTok then commit_reads is r pr s
      else bindE (upcast (fst r) (js_nth (reads (deref s r)) i) s) (\<lambda>(update, s1).
        let pm = deref s1 pr;
            s2 = put_model pr (pm\<lparr>reads := arr_set Undefined (reads pm) i (downcast update)\<rparr>) s1;
            m = deref s2 r;
            s3 = put_model r (m\<lparr>reads := arr_set Undefined (reads m) i NoneTok\<rparr>) s2
        in commit_reads is r pr s3))"

definition Model_commit :: "mref \<Rightarrow> 'v store \<Rightarrow> error + 'v store" where
  "Model_commit r s =
     (case parent (worlds s ! fst r) of
        None \<Rightarrow> Inr s
      | Some p \<Rightarrow>
          let s1 = (case World_findOwn s p (snd r) of
                      None \<Rightarrow> World_add p (snd r) (slotCount (deref s r)) s
                    | Some pm \<Rightarrow> s)
          in bindE (commit_writes [0 ..< length (writes (deref s1 r))] r (p, snd r) s1)
               (commit_reads [0 ..< slotCount (deref s1 r)] r (p, snd r)))"

definition World_commit :: "nat \<Rightarrow> 'v store \<Rightarrow> error + 'v store" where
  "World_commit w s =
     (case parent (worlds s ! w) of
        None \<Rightarrow> Inr s
      | Some p \<Rightarrow>
          if locked (worlds s ! p) \<and> length (children (worlds s ! p)) > 1 then Inl LockedParent
          else
            bindE (forEachModel (models_fuel s)
                     (\<lambda>ident u s'. bindE (Model_committable (w, ident) s')
                        (\<lambda>(ok, s''). if ok then Inr (u, s'') else Inl CommitConflict))
                     w 0 () s) (\<lambda>(u, s1).
            bindE (forEachModel (models_fuel s1)
                     (\<lambda>ident u s'. bindE (Model_commit (w, ident) s') (\<lambda>s''. Inr (u, s'')))
                     w 0 () s1) (\<lambda>(u, s2). Inr s2)))"

section \<open>App and WaveApp (model.ts)\<close>

record app =
  app_worlds :: "nat list"
  app_redo :: "nat list"

definition App_cleanRedoBuffer :: "'z app_scheme \<times> 'v store \<Rightarrow> 'z app_scheme \<times> 'v store" where
  "App_cleanRedoBuffer = (\<lambda>(a, s). (a\<lparr>app_redo := []\<rparr>, fold World_detach (app_redo a) s))"

text \<open>\<^verbatim>\<open>this._world\<close> is the last element of \<^verbatim>\<open>_worlds\<close>, \<^verbatim>\<open>undefined\<close> for an empty
  array, on which a method call is a \<^verbatim>\<open>TypeError\<close>.\<close>

definition App_advance :: "'z app_scheme \<times> 'v store \<Rightarrow> error + ('z app_scheme \<times> 'v store)" where
  "App_advance p =
     (let (a, s) = App_cleanRedoBuffer p in
      if app_worlds a = [] then Inl TypeError
      else bindE (World_lock (last (app_worlds a)) s) (\<lambda>s1.
        let (w, s2) = new_World (Some (last (app_worlds a))) s1
        in Inr (a\<lparr>app_worlds := app_worlds a @ [w]\<rparr>, s2)))"

definition App_undo :: "'z app_scheme \<times> 'v store \<Rightarrow> 'z app_scheme \<times> 'v store" where
  "App_undo = (\<lambda>(a, s).
     if length (app_worlds a) \<le> 1 then (a, s)
     else let a1 = a\<lparr>app_redo := app_redo a @ [last (app_worlds a)],
                     app_worlds := butlast (app_worlds a)\<rparr>
          in (a1, World_unlock (last (app_worlds a1)) s))"

definition App_redo :: "'z app_scheme \<times> 'v store \<Rightarrow> error + ('z app_scheme \<times> 'v store)" where
  "App_redo = (\<lambda>(a, s).
     if length (app_redo a) < 1 then Inr (a, s)
     else if app_worlds a = [] then Inl TypeError
     else bindE (World_lock (last (app_worlds a)) s) (\<lambda>s1.
       Inr (a\<lparr>app_worlds := app_worlds a @ [last (app_redo a)],
              app_redo := butlast (app_redo a)\<rparr>, s1)))"

text \<open>The callbacks of the mutation stream get the world that was pushed and act on the
  store as it is when they are called, and on the state \<open>'o\<close> of the observers.\<close>

record ('v, 'o) waveapp = app +
  mutations :: "(nat, 'v store \<times> 'o) stream"
  waveMergeState :: wave_merge_state

definition new_WaveApp :: "nat \<Rightarrow> ('v, 'o) waveapp" where
  "new_WaveApp world =
     \<lparr>app_worlds = [world], app_redo = [], mutations = new_stream,
      waveMergeState = \<lparr>wtag = [''*''], wrate = 0\<rparr>\<rparr>"

definition WaveApp_advanceWaveMerge ::
  "string \<Rightarrow> string \<times> int option \<Rightarrow> ('v, 'o) waveapp \<times> 'v store \<Rightarrow>
   error + (('v, 'o) waveapp \<times> 'v store)" where
  "WaveApp_advanceWaveMerge ident options = (\<lambda>(a, s).
     let (merged, st) = merge (waveMergeState a) ident (fst options) (snd options);
         a1 = a\<lparr>waveMergeState := st\<rparr>
     in if merged then Inr (App_cleanRedoBuffer (a1, s)) else App_advance (a1, s))"

definition WaveApp_watch ::
  "string \<Rightarrow> ('v store \<times> 'o \<Rightarrow> 'v store \<times> 'o) \<Rightarrow> ('v, 'o) waveapp \<times> 'v store \<times> 'o \<Rightarrow>
   nat \<times> ('v, 'o) waveapp \<times> 'v store \<times> 'o" where
  "WaveApp_watch ref fn = (\<lambda>(a, so).
     let filter_fn = (\<lambda>world (s, ob).
           case World_findOwn s world ref of
             None \<Rightarrow> (s, ob)
           | Some m \<Rightarrow> if \<not> Model_isModified m then (s, ob) else fn (s, ob));
         (k, st, so') = subscribe filter_fn (mutations a, so)
     in (k, a\<lparr>mutations := st\<rparr>, so'))"


text \<open>\<^verbatim>\<open>WaveApp.call\<close>. The method body is a parameter: it gets the bound model and acts
  on the store. \<open>options\<close> is the \<^verbatim>\<open>_waveMergeOptions\<close> of the method, \<open>pure\<close> its
  \<^verbatim>\<open>pure\<close> flag. Reading the method of \<^verbatim>\<open>undefined\<close>, which \<^verbatim>\<open>bind\<close> returns for the
  empty string, is a \<open>TypeError\<close>.\<close>

definition WaveApp_call ::
  "bref \<Rightarrow> (string \<times> int option) option \<Rightarrow> bool \<Rightarrow>
   (mref \<Rightarrow> 'v store \<Rightarrow> error + ('v val \<times> 'v store)) \<Rightarrow>
   ('v, 'o) waveapp \<times> 'v store \<times> 'o \<Rightarrow> error + ('v val \<times> ('v, 'o) waveapp \<times> 'v store \<times> 'o)" where
  "WaveApp_call ref options pure method = (\<lambda>(a, s, ob).
     if app_worlds a = [] then Inl TypeError
     else bindE (World_findNearest s (last (app_worlds a)) (bref_id ref)) (\<lambda>c.
       case c of
         None \<Rightarrow> Inl TypeError
       | Some m \<Rightarrow>
           bindE (if pure then Inr (a, s)
                  else (case options of
                          Some opt \<Rightarrow> WaveApp_advanceWaveMerge (bref_id ref) opt (a, s)
                        | None \<Rightarrow> App_advance (a, s))) (\<lambda>(a1, s1).
           bindE (World_bind (last (app_worlds a1)) ref s1) (\<lambda>(model, s2).
           bindE (case model of ModelV w i \<Rightarrow> method (w, i) s2 | _ \<Rightarrow> Inl TypeError) (\<lambda>(res, s3).
             let (st, so) = (if pure then (mutations a1, (s3, ob))
                             else push (last (app_worlds a1)) (mutations a1, (s3, ob)))
             in Inr (res, a1\<lparr>mutations := st\<rparr>, so))))))"

section \<open>Stream: delivery at subscription time\<close>

lemma push_current: "current (fst (push v p)) = Some v"
  by (cases p) (simp add: push_def)

lemma fold_push_current:
  "vs \<noteq> [] \<Longrightarrow> current (fst (fold push vs p)) = Some (last vs)"
proof (induction vs arbitrary: p)
  case Nil
  then show ?case by simp
next
  case (Cons v vs)
  show ?case
  proof (cases vs)
    case Nil
    then show ?thesis by (simp add: push_current)
  next
    case (Cons w ws)
    with Cons.IH [of "push v p"] show ?thesis by simp
  qed
qed

text \<open>
  Claim C10. \<^verbatim>\<open>Stream.subscribe\<close> calls the new subscriber at once, before it
  returns, with the value of the most recent \<^verbatim>\<open>push\<close>, whenever a value has been
  pushed before the subscription: the observer state after \<^verbatim>\<open>subscribe(fn)\<close> is the
  state before it with \<open>fn\<close> applied to the last pushed value. So \<^verbatim>\<open>WaveApp.watch\<close>,
  which subscribes its filter to the mutation stream, runs the watcher during the call of
  \<^verbatim>\<open>watch\<close> when the world pushed last holds a modified model for the reference.
\<close>

theorem subscribe_delivers_current:
  "(vs \<noteq> [] \<longrightarrow>
      snd (snd (subscribe fn (fold push vs p))) = fn (last vs) (snd (fold push vs p))) \<and>
   (current (mutations a) = Some w \<and> World_findOwn s w ref = Some m \<and> Model_isModified m \<longrightarrow>
      snd (snd (WaveApp_watch ref g (a, s, ob))) = g (s, ob))"
proof (intro conjI impI)
  assume vs: "vs \<noteq> []"
  obtain st t where ps: "fold push vs p = (st, t)"
    by (cases "fold push vs p")
  from fold_push_current [OF vs, of p] ps have "current st = Some (last vs)"
    by simp
  with ps show "snd (snd (subscribe fn (fold push vs p))) = fn (last vs) (snd (fold push vs p))"
    by (simp add: subscribe_def Let_def)
next
  assume "current (mutations a) = Some w \<and> World_findOwn s w ref = Some m \<and> Model_isModified m"
  then show "snd (snd (WaveApp_watch ref g (a, s, ob))) = g (s, ob)"
    by (simp add: WaveApp_watch_def subscribe_def Let_def)
qed

section \<open>Wave merge: when a call coalesces\<close>

lemma App_advance_shape:
  assumes "App_advance (a, s) = Inr (a', s')"
  shows "\<exists>w. a' = a\<lparr>app_redo := [], app_worlds := app_worlds a @ [w]\<rparr>"
proof -
  from assms obtain s1 where
    res: "(case new_World (Some (last (app_worlds a))) s1 of
             (w, s2) \<Rightarrow> Inr (a\<lparr>app_redo := [], app_worlds := app_worlds a @ [w]\<rparr>, s2))
          = (Inr (a', s') :: error + _)"
    by (auto simp: App_advance_def App_cleanRedoBuffer_def bindE_eq_Inr split: if_splits)
  then show ?thesis
    by (cases "new_World (Some (last (app_worlds a))) s1") auto
qed

lemma tags_match_refl: "tags_match ts ts"
  by (induction ts) simp_all

definition coalesces :: "wave_merge_state \<Rightarrow> string list \<Rightarrow> int option \<Rightarrow> bool" where
  "coalesces st tg rate \<longleftrightarrow>
     length tg = length (wtag st) \<and> tags_match tg (wtag st) \<and>
     (case rate of None \<Rightarrow> True | Some r \<Rightarrow> wrate st < r)"

lemma canMerge_coalesces: "canMerge st tg rate = coalesces st tg rate"
  by (auto simp: canMerge_def coalesces_def split: option.splits)



text \<open>Running a list of calls \<open>(id, tag, rate)\<close> through \<^verbatim>\<open>_advanceWaveMerge\<close>, on an
  app over a store that holds one root world.\<close>

definition store0 :: "nat store" where
  "store0 = snd (new_World None \<lparr>worlds = [], keyStreams = []\<rparr>)"

definition wave_run ::
  "(string \<times> string \<times> int option) list \<Rightarrow> (nat, unit) waveapp \<times> nat store \<Rightarrow>
   error + ((nat, unit) waveapp \<times> nat store)" where
  "wave_run calls p =
     fold (\<lambda>(ident, tg, rate) r. bindE r (WaveApp_advanceWaveMerge ident (tg, rate))) calls (Inr p)"

definition worlds_after :: "(string \<times> string \<times> int option) list \<Rightarrow> error + nat list" where
  "worlds_after calls = map_sum id (\<lambda>(a, s). app_worlds a) (wave_run calls (new_WaveApp 0, store0))"



section \<open>Locking a world\<close>

text \<open>Two stores with the same worlds, parents and lock flags.\<close>

definition same_locks :: "'v store \<Rightarrow> 'v store \<Rightarrow> bool" where
  "same_locks s s' \<longleftrightarrow>
     length (worlds s') = length (worlds s) \<and>
     (\<forall>i < length (worlds s).
        parent (worlds s' ! i) = parent (worlds s ! i) \<and>
        locked (worlds s' ! i) = locked (worlds s ! i) \<and>
        children (worlds s' ! i) = children (worlds s ! i))"

lemma same_locks_refl: "same_locks s s"
  by (simp add: same_locks_def)

lemma same_locks_trans:
  assumes "same_locks s s1" "same_locks s1 s2"
  shows "same_locks s s2"
  unfolding same_locks_def
proof (intro conjI allI impI)
  show "length (worlds s2) = length (worlds s)"
    using assms by (simp add: same_locks_def)
next
  fix i assume i: "i < length (worlds s)"
  with assms have "i < length (worlds s1)"
    by (simp add: same_locks_def)
  with assms(2) have
    "parent (worlds s2 ! i) = parent (worlds s1 ! i)" "locked (worlds s2 ! i) = locked (worlds s1 ! i)"
    "children (worlds s2 ! i) = children (worlds s1 ! i)"
    unfolding same_locks_def by blast+
  moreover from i assms(1) have
    "parent (worlds s1 ! i) = parent (worlds s ! i)" "locked (worlds s1 ! i) = locked (worlds s ! i)"
    "children (worlds s1 ! i) = children (worlds s ! i)"
    unfolding same_locks_def by blast+
  ultimately show "parent (worlds s2 ! i) = parent (worlds s ! i)"
    and "locked (worlds s2 ! i) = locked (worlds s ! i)"
    and "children (worlds s2 ! i) = children (worlds s ! i)"
    by simp_all
qed

lemma upd_world_same:
  assumes "\<And>x. parent (f x) = parent x \<and> locked (f x) = locked x \<and> children (f x) = children x"
  shows "same_locks s (upd_world w f s)"
  unfolding same_locks_def upd_world_def
proof (intro conjI allI impI)
  show "length (worlds (s\<lparr>worlds := (worlds s)[w := f (worlds s ! w)]\<rparr>)) = length (worlds s)"
    by simp
next
  fix i assume "i < length (worlds s)"
  then show "parent (worlds (s\<lparr>worlds := (worlds s)[w := f (worlds s ! w)]\<rparr>) ! i) = parent (worlds s ! i)"
    and "locked (worlds (s\<lparr>worlds := (worlds s)[w := f (worlds s ! w)]\<rparr>) ! i) = locked (worlds s ! i)"
    and "children (worlds (s\<lparr>worlds := (worlds s)[w := f (worlds s ! w)]\<rparr>) ! i) = children (worlds s ! i)"
    using assms by (cases "i = w"; simp)+
qed

lemma World_add_same: "same_locks s (World_add w i n s)"
  unfolding World_add_def by (rule upd_world_same) simp

lemma put_model_same: "same_locks s (put_model r m s)"
  unfolding put_model_def by (rule upd_world_same) simp

lemma World_bind_same:
  assumes "World_bind w ref s = Inr (v, s')"
  shows "same_locks s s'"
proof (cases "falsy ref")
  case True
  with assms show ?thesis
    by (simp add: World_bind_def same_locks_refl)
next
  case False
  with assms obtain r where
    r: "(case r of
           None \<Rightarrow> Inl UnknownRef
         | Some m \<Rightarrow>
             if fst m = w then Inr (ModelV w (snd m), s)
             else Inr (ModelV w (bref_id ref),
                       World_add w (bref_id ref) (slotCount (deref s m)) s)) = Inr (v, s')"
    by (auto simp: World_bind_def bindE_eq_Inr)
  show ?thesis
  proof (cases r)
    case None
    with r show ?thesis by simp
  next
    case (Some m)
    with r have "s' = s \<or> s' = World_add w (bref_id ref) (slotCount (deref s m)) s"
      by (auto split: if_splits)
    then show ?thesis
      by (auto simp: same_locks_refl World_add_same)
  qed
qed

lemma upcast_same: "upcast w v s = Inr (v', s') \<Longrightarrow> same_locks s s'"
  by (cases v) (auto simp: upcast_def same_locks_refl dest: World_bind_same)

lemma Model_getOwnSlot_same: "Model_getOwnSlot r i s = Inr (v, s') \<Longrightarrow> same_locks s s'"
  by (auto simp: Model_getOwnSlot_def Let_def same_locks_refl
           split: if_splits dest: upcast_same)

lemma put_slots_same: "put_slots is r slots s = Inr (slots', s') \<Longrightarrow> same_locks s s'"
proof (induction "is" arbitrary: slots s)
  case Nil
  then show ?case by (simp add: same_locks_refl)
next
  case (Cons i "is")
  from Cons.prems obtain v s1 where
    g: "Model_getOwnSlot r i s = Inr (v, s1)" and
    rest: "put_slots is r (if v \<noteq> NoneTok then arr_set Undefined slots i v else slots) s1
             = Inr (slots', s')"
    by (auto simp: bindE_eq_Inr)
  from Model_getOwnSlot_same [OF g] Cons.IH [OF rest] show ?case
    by (rule same_locks_trans)
qed

lemma LookupCache_put_same: "LookupCache_put r c s = Inr (c', s') \<Longrightarrow> same_locks s s'"
  by (auto simp: LookupCache_put_def bindE_eq_Inr same_locks_refl
           split: option.splits dest: put_slots_same)

lemma forEachModel_same:
  assumes f: "\<And>i acc s acc' s'. f i acc s = Inr (acc', s') \<Longrightarrow> same_locks s s'"
  shows "forEachModel n f w k acc s = Inr (acc', s') \<Longrightarrow> same_locks s s'"
proof (induction n arbitrary: k acc s)
  case 0
  then show ?case by simp
next
  case (Suc n)
  show ?case
  proof (cases "k < length (models (worlds s ! w))")
    case True
    with Suc.prems obtain acc1 s1 where
      step: "f (fst (models (worlds s ! w) ! k)) acc s = Inr (acc1, s1)" and
      rest: "forEachModel n f w (Suc k) acc1 s1 = Inr (acc', s')"
      by (auto simp: bindE_eq_Inr)
    from f [OF step] Suc.IH [OF rest] show ?thesis
      by (rule same_locks_trans)
  next
    case False
    with Suc.prems show ?thesis by (simp add: same_locks_refl)
  qed
qed

lemma build_cache_same: "build_cache ws c s = Inr (c', s') \<Longrightarrow> same_locks s s'"
proof (induction ws arbitrary: c s)
  case Nil
  then show ?case by (simp add: same_locks_refl)
next
  case (Cons w ws)
  from Cons.prems obtain c1 s1 where
    step: "forEachModel (models_fuel s) (\<lambda>ident. LookupCache_put (w, ident)) w 0 c s = Inr (c1, s1)"
    and rest: "build_cache ws c1 s1 = Inr (c', s')"
    by (auto simp: bindE_eq_Inr)
  have "same_locks s s1"
    using step by (rule forEachModel_same [rotated]) (rule LookupCache_put_same)
  with Cons.IH [OF rest] show ?case
    by (rule same_locks_trans [rotated])
qed

lemma upd_cache_same: "same_locks t (upd_world a (\<lambda>x. x\<lparr>lookupCache := c\<rparr>) t)"
  by (rule upd_world_same) simp

lemma World_requestLookupCache_same:
  assumes "World_requestLookupCache w s = Inr s'"
  shows "same_locks s s'"
proof (cases "locked (worlds s ! w)")
  case False
  with assms show ?thesis
    by (simp add: World_requestLookupCache_def same_locks_refl)
next
  case True
  define k where "k = (\<lambda>(path :: nat list, stop :: nat option).
            if length path < lookupCacheFactor then Inr s
            else
              let (cache, path', s1) =
                    (case stop of
                       Some a \<Rightarrow>
                         (case lookupCache (worlds s ! a) of Some c \<Rightarrow> c | None \<Rightarrow> [],
                          path @ [a],
                          upd_world a (\<lambda>x. x\<lparr>lookupCache := None\<rparr>) s)
                     | None \<Rightarrow> ([], path, s))
              in bindE (build_cache (rev path') cache s1) (\<lambda>(cache', s2).
                   Inr (upd_world w (\<lambda>x. x\<lparr>lookupCache := Some cache'\<rparr>) s2)))"
  from assms True have "bindE (path_loop (chain_fuel s) s (parent (worlds s ! w)) []) k = Inr s'"
    unfolding World_requestLookupCache_def k_def by (simp only: simp_thms if_False)
  then obtain ps where "k ps = Inr s'"
    unfolding bindE_eq_Inr by blast
  then obtain path stop where "k (path, stop) = Inr s'"
    by (cases ps) blast
  then have
    rest: "(if length path < lookupCacheFactor then Inr s
            else
              let (cache, path', s1) =
                    (case stop of
                       Some a \<Rightarrow>
                         (case lookupCache (worlds s ! a) of Some c \<Rightarrow> c | None \<Rightarrow> [],
                          path @ [a],
                          upd_world a (\<lambda>x. x\<lparr>lookupCache := None\<rparr>) s)
                     | None \<Rightarrow> ([], path, s))
              in bindE (build_cache (rev path') cache s1) (\<lambda>(cache', s2).
                   Inr (upd_world w (\<lambda>x. x\<lparr>lookupCache := Some cache'\<rparr>) s2))) = Inr s'"
    unfolding k_def by (simp only: prod.case)
  show ?thesis
  proof (cases "length path < lookupCacheFactor")
    case True
    with rest show ?thesis by (simp add: same_locks_refl)
  next
    case False
    let ?tr = "(case stop of
              Some a \<Rightarrow>
                (case lookupCache (worlds s ! a) of Some c \<Rightarrow> c | None \<Rightarrow> [],
                 path @ [a],
                 upd_world a (\<lambda>x. x\<lparr>lookupCache := None\<rparr>) s)
            | None \<Rightarrow> ([], path, s))"
    obtain cache path' s1 where tr: "?tr = (cache, path', s1)"
      by (cases ?tr)
    then have s1: "same_locks s s1"
      by (auto simp: same_locks_refl upd_cache_same split: option.splits)
    from rest False have
      "(let (cache, path', s1) = ?tr
        in bindE (build_cache (rev path') cache s1) (\<lambda>(cache', s2).
             Inr (upd_world w (\<lambda>x. x\<lparr>lookupCache := Some cache'\<rparr>) s2))) = Inr s'"
      by (simp only: if_False)
    then have "bindE (build_cache (rev path') cache s1) (\<lambda>(cache', s2).
             Inr (upd_world w (\<lambda>x. x\<lparr>lookupCache := Some cache'\<rparr>) s2)) = Inr s'"
      by (simp only: tr Let_def prod.case)
    then obtain cache' s2 where
      b: "build_cache (rev path') cache s1 = Inr (cache', s2)" and
      s': "s' = upd_world w (\<lambda>x. x\<lparr>lookupCache := Some cache'\<rparr>) s2"
      by (auto simp: bindE_eq_Inr)
    from s1 build_cache_same [OF b] have "same_locks s s2"
      by (rule same_locks_trans)
    then show ?thesis
      unfolding s' by (rule same_locks_trans) (rule upd_cache_same)
  qed
qed


text \<open>
  The loop of \<^verbatim>\<open>lock\<close> stops at the first world that is locked already. It relies on
  the stores that the constructor, \<^verbatim>\<open>lock\<close>, \<^verbatim>\<open>unlock\<close> and \<^verbatim>\<open>detach\<close> build: the
  parent of a locked world is locked.
\<close>

definition lock_closed :: "'v store \<Rightarrow> bool" where
  "lock_closed s \<longleftrightarrow>
     (\<forall>c < length (worlds s).
        case parent (worlds s ! c) of
          None \<Rightarrow> True
        | Some p \<Rightarrow> p < length (worlds s) \<and> (locked (worlds s ! c) \<longrightarrow> locked (worlds s ! p)))"

definition lock_inv :: "'v store \<Rightarrow> nat option \<Rightarrow> bool" where
  "lock_inv s x \<longleftrightarrow>
     (\<forall>c < length (worlds s).
        case parent (worlds s ! c) of
          None \<Rightarrow> True
        | Some p \<Rightarrow> p < length (worlds s) \<and>
                    (locked (worlds s ! c) \<longrightarrow> locked (worlds s ! p) \<or> x = Some p))"

definition parent_rel :: "'v store \<Rightarrow> (nat \<times> nat) set" where
  "parent_rel s = {(c, p). c < length (worlds s) \<and> parent (worlds s ! c) = Some p}"

lemma lock_closed_inv: "lock_closed s \<Longrightarrow> lock_inv s x"
  by (auto simp: lock_closed_def lock_inv_def split: option.splits)

lemma upd_world_length [simp]: "length (worlds (upd_world w f s)) = length (worlds s)"
  by (simp add: upd_world_def)

lemma upd_world_nth:
  "i < length (worlds s) \<Longrightarrow>
   worlds (upd_world w f s) ! i = (if i = w then f (worlds s ! w) else worlds s ! i)"
  by (simp add: upd_world_def)

lemma lock_loop_None: "lock_loop s None = s"
  by (subst lock_loop.simps) simp

lemma lock_loop_stop:
  "\<not> (w < length (worlds s) \<and> \<not> locked (worlds s ! w)) \<Longrightarrow> lock_loop s (Some w) = s"
  by (subst lock_loop.simps) auto

lemma lock_loop_step:
  "w < length (worlds s) \<Longrightarrow> \<not> locked (worlds s ! w) \<Longrightarrow>
   lock_loop s (Some w) = lock_loop (upd_world w (\<lambda>x. x\<lparr>locked := True\<rparr>) s) (parent (worlds s ! w))"
  by (subst lock_loop.simps) simp

lemma lock_loop_frame:
  "length (worlds (lock_loop s x)) = length (worlds s) \<and>
   (\<forall>i < length (worlds s).
      parent (worlds (lock_loop s x) ! i) = parent (worlds s ! i) \<and>
      (locked (worlds s ! i) \<longrightarrow> locked (worlds (lock_loop s x) ! i)))"
proof (induction s x rule: lock_loop.induct)
  case (1 s world)
  show ?case
  proof (cases world)
    case None
    then show ?thesis by (simp add: lock_loop_None)
  next
    case (Some w)
    show ?thesis
    proof (cases "w < length (worlds s) \<and> \<not> locked (worlds s ! w)")
      case False
      with Some show ?thesis by (simp add: lock_loop_stop)
    next
      case True
      let ?s1 = "upd_world w (\<lambda>x. x\<lparr>locked := True\<rparr>) s"
      from True Some have eq: "lock_loop s world = lock_loop ?s1 (parent (worlds s ! w))"
        by (simp add: lock_loop_step)
      from "1.IH" [OF Some] True have IH:
        "length (worlds (lock_loop ?s1 (parent (worlds s ! w)))) = length (worlds ?s1)"
        "\<And>i. i < length (worlds ?s1) \<Longrightarrow>
           parent (worlds (lock_loop ?s1 (parent (worlds s ! w))) ! i) = parent (worlds ?s1 ! i) \<and>
           (locked (worlds ?s1 ! i) \<longrightarrow> locked (worlds (lock_loop ?s1 (parent (worlds s ! w))) ! i))"
        by auto
      have len: "length (worlds ?s1) = length (worlds s)"
        by (simp add: upd_world_def)
      have s1: "\<And>i. i < length (worlds s) \<Longrightarrow>
          parent (worlds ?s1 ! i) = parent (worlds s ! i) \<and>
          (locked (worlds s ! i) \<longrightarrow> locked (worlds ?s1 ! i))"
        by (simp add: upd_world_nth)
      show ?thesis
        unfolding eq using IH len s1 by auto
    qed
  qed
qed

lemma lock_loop_closed: "lock_inv s x \<Longrightarrow> lock_closed (lock_loop s x)"
proof (induction s x rule: lock_loop.induct)
  case (1 s world)
  show ?case
  proof (cases world)
    case None
    with "1.prems" show ?thesis
      by (auto simp: lock_loop_None lock_inv_def lock_closed_def split: option.splits)
  next
    case (Some w)
    show ?thesis
    proof (cases "w < length (worlds s) \<and> \<not> locked (worlds s ! w)")
      case False
      with Some have eq: "lock_loop s world = s"
        by (simp add: lock_loop_stop)
      show ?thesis
        unfolding eq lock_closed_def
      proof (intro allI impI)
        fix c assume c: "c < length (worlds s)"
        show "case parent (worlds s ! c) of None \<Rightarrow> True
              | Some p \<Rightarrow> p < length (worlds s) \<and> (locked (worlds s ! c) \<longrightarrow> locked (worlds s ! p))"
        proof (cases "parent (worlds s ! c)")
          case None
          then show ?thesis by simp
        next
          case (Some p)
          with "1.prems" c have p: "p < length (worlds s)"
            and l: "locked (worlds s ! c) \<longrightarrow> locked (worlds s ! p) \<or> world = Some p"
            by (auto simp: lock_inv_def split: option.splits)
          from False p l \<open>world = Some w\<close> have "locked (worlds s ! c) \<longrightarrow> locked (worlds s ! p)"
            by auto
          with Some p show ?thesis by simp
        qed
      qed
    next
      case True
      let ?s1 = "upd_world w (\<lambda>x. x\<lparr>locked := True\<rparr>) s"
      from True Some have eq: "lock_loop s world = lock_loop ?s1 (parent (worlds s ! w))"
        by (simp add: lock_loop_step)
      have "lock_inv ?s1 (parent (worlds s ! w))"
        unfolding lock_inv_def
      proof (intro allI impI)
        fix c assume "c < length (worlds ?s1)"
        then have c: "c < length (worlds s)" by (simp add: upd_world_def)
        show "case parent (worlds ?s1 ! c) of None \<Rightarrow> True
              | Some p \<Rightarrow> p < length (worlds ?s1) \<and>
                  (locked (worlds ?s1 ! c) \<longrightarrow> locked (worlds ?s1 ! p) \<or> parent (worlds s ! w) = Some p)"
        proof (cases "parent (worlds s ! c)")
          case None
          with c show ?thesis by (auto simp: upd_world_nth)
        next
          case (Some p)
          with "1.prems" c have p: "p < length (worlds s)"
            and l: "locked (worlds s ! c) \<longrightarrow> locked (worlds s ! p) \<or> world = Some p"
            by (auto simp: lock_inv_def split: option.splits)
          from Some c p l \<open>world = Some w\<close> show ?thesis
            by (auto simp: upd_world_nth)
        qed
      qed
      with "1.IH" [OF Some] True show ?thesis
        unfolding eq by simp
    qed
  qed
qed

lemma lock_loop_target:
  assumes "w < length (worlds s)"
  shows "locked (worlds (lock_loop s (Some w)) ! w)"
proof (cases "locked (worlds s ! w)")
  case True
  with assms show ?thesis by (simp add: lock_loop_stop)
next
  case False
  let ?s1 = "upd_world w (\<lambda>x. x\<lparr>locked := True\<rparr>) s"
  from False assms have eq: "lock_loop s (Some w) = lock_loop ?s1 (parent (worlds s ! w))"
    by (simp add: lock_loop_step)
  from assms have "w < length (worlds ?s1)" "locked (worlds ?s1 ! w)"
    by (simp_all add: upd_world_nth)
  with lock_loop_frame [of ?s1 "parent (worlds s ! w)"] show ?thesis
    unfolding eq by blast
qed

lemma closed_ancestors:
  assumes "lock_closed s" and "(w, a) \<in> (parent_rel s)\<^sup>*"
    and "w < length (worlds s)" and "locked (worlds s ! w)"
  shows "a < length (worlds s) \<and> locked (worlds s ! a)"
  using assms(2,1,3,4)
proof (induction rule: rtrancl_induct)
  case base
  then show ?case by simp
next
  case (step b c)
  then have b: "b < length (worlds s)" "locked (worlds s ! b)" by simp_all
  from step.hyps(2) have "parent (worlds s ! b) = Some c"
    by (simp add: parent_rel_def)
  with \<open>lock_closed s\<close> b show ?case
    by (auto simp: lock_closed_def split: option.splits)
qed

lemma same_locks_closed:
  assumes "same_locks s s'" "lock_closed s"
  shows "lock_closed s'"
  unfolding lock_closed_def
proof (intro allI impI)
  fix c assume "c < length (worlds s')"
  with assms(1) have c: "c < length (worlds s)" by (simp add: same_locks_def)
  show "case parent (worlds s' ! c) of None \<Rightarrow> True
        | Some p \<Rightarrow> p < length (worlds s') \<and> (locked (worlds s' ! c) \<longrightarrow> locked (worlds s' ! p))"
  proof (cases "parent (worlds s ! c)")
    case None
    with assms(1) c show ?thesis by (simp add: same_locks_def)
  next
    case (Some p)
    with assms(2) c have "p < length (worlds s)"
      "locked (worlds s ! c) \<longrightarrow> locked (worlds s ! p)"
      by (auto simp: lock_closed_def split: option.splits)
    with assms(1) Some c show ?thesis by (simp add: same_locks_def)
  qed
qed

text \<open>
  On a store in which the parent of every locked world is locked, the world and each of
  its ancestors is locked after \<^verbatim>\<open>world.lock()\<close> has returned.
\<close>

lemma lock_closed_ancestors:
  assumes "lock_closed s" and "w < length (worlds s)" and "World_lock w s = Inr s'"
    and "(w, a) \<in> (parent_rel s')\<^sup>*"
  shows "locked (worlds s' ! a) \<and>
         (\<forall>ident index v.
            Model_writeSlot (a, ident) index v s' =
              (if index < slotCount (deref s' (a, ident)) then Inl LockedWrite
               else Inr (Undefined, s')))"
proof -
  let ?s1 = "lock_loop s (Some w)"
  have fr: "length (worlds ?s1) = length (worlds s)"
    using lock_loop_frame [of s "Some w"] by simp
  have "lock_closed ?s1"
    using assms(1) by (intro lock_loop_closed lock_closed_inv)
  moreover from assms(3) have same: "same_locks ?s1 s'"
    unfolding World_lock_def by (rule World_requestLookupCache_same)
  ultimately have closed: "lock_closed s'"
    by (rule same_locks_closed [rotated])
  from same fr assms(2) have w: "w < length (worlds s')"
    by (simp add: same_locks_def)
  from lock_loop_target [OF assms(2)] same fr assms(2) have "locked (worlds s' ! w)"
    by (simp add: same_locks_def)
  with closed_ancestors [OF closed assms(4) w] have "locked (worlds s' ! a)"
    by simp
  then show ?thesis
    by (simp add: Model_writeSlot_def)
qed


text \<open>The parent links that the loop of \<^verbatim>\<open>lock\<close> follows: the ones of the worlds that
  are not locked.\<close>

definition unlocked_rel :: "'v store \<Rightarrow> (nat \<times> nat) set" where
  "unlocked_rel s =
     {(c, p). c < length (worlds s) \<and> \<not> locked (worlds s ! c) \<and> parent (worlds s ! c) = Some p}"

lemma unlocked_rel_step:
  assumes "w < length (worlds s)"
  shows "unlocked_rel (upd_world w (\<lambda>x. x\<lparr>locked := True\<rparr>) s) =
         {(c, p). (c, p) \<in> unlocked_rel s \<and> c \<noteq> w}"
  using assms by (auto simp: unlocked_rel_def upd_world_nth split: if_splits)

lemma unlocked_reach:
  assumes "(z, a) \<in> (unlocked_rel s)\<^sup>*" and "(w, z) \<in> unlocked_rel s"
  shows "(z, a) \<in> {(c, p). (c, p) \<in> unlocked_rel s \<and> c \<noteq> w}\<^sup>* \<or> a = w"
  using assms(1)
proof (induction rule: rtrancl_induct)
  case base
  show ?case by simp
next
  case (step b c)
  show ?case
  proof (cases "b = w")
    case True
    with step.hyps(2) assms(2) have "c = z"
      by (simp add: unlocked_rel_def)
    then show ?thesis by simp
  next
    case False
    with step.IH have "(z, b) \<in> {(c, p). (c, p) \<in> unlocked_rel s \<and> c \<noteq> w}\<^sup>*"
      by simp
    moreover from False step.hyps(2) have "(b, c) \<in> {(c, p). (c, p) \<in> unlocked_rel s \<and> c \<noteq> w}"
      by simp
    ultimately show ?thesis
      by (auto intro: rtrancl_into_rtrancl)
  qed
qed

lemma lock_loop_locks:
  "a < length (worlds s) \<Longrightarrow>
   locked (worlds (lock_loop s x) ! a) \<longleftrightarrow>
     locked (worlds s ! a) \<or> (\<exists>w. x = Some w \<and> (w, a) \<in> (unlocked_rel s)\<^sup>*)"
proof (induction s x rule: lock_loop.induct)
  case (1 s world)
  show ?case
  proof (cases world)
    case None
    then show ?thesis by (simp add: lock_loop_None)
  next
    case (Some w)
    show ?thesis
    proof (cases "w < length (worlds s) \<and> \<not> locked (worlds s ! w)")
      case False
      have "locked (worlds s ! a)" if "(w, a) \<in> (unlocked_rel s)\<^sup>*"
        using that
      proof (cases rule: converse_rtranclE)
        case base
        with False "1.prems" show ?thesis by simp
      next
        case (step y)
        with False show ?thesis by (simp add: unlocked_rel_def)
      qed
      with False Some show ?thesis
        by (auto simp: lock_loop_stop)
    next
      case True
      let ?s1 = "upd_world w (\<lambda>x. x\<lparr>locked := True\<rparr>) s"
      let ?p = "parent (worlds s ! w)"
      from True have w: "w < length (worlds s)" and u: "\<not> locked (worlds s ! w)"
        by simp_all
      have eq: "lock_loop s (Some w) = lock_loop ?s1 ?p"
        using w u by (rule lock_loop_step)
      from "1.prems" have a1: "a < length (worlds ?s1)"
        by simp
      from "1.IH" [OF Some True a1]
      have ih: "locked (worlds (lock_loop ?s1 ?p) ! a) \<longleftrightarrow>
          locked (worlds ?s1 ! a) \<or> (\<exists>z. ?p = Some z \<and> (z, a) \<in> (unlocked_rel ?s1)\<^sup>*)" .
      have l1: "locked (worlds ?s1 ! a) \<longleftrightarrow> locked (worlds s ! a) \<or> a = w"
        using "1.prems" by (simp add: upd_world_nth)
      note r1 = unlocked_rel_step [OF w]
      have "(\<exists>z. ?p = Some z \<and> (z, a) \<in> (unlocked_rel ?s1)\<^sup>*) \<or> a = w \<longleftrightarrow>
          (w, a) \<in> (unlocked_rel s)\<^sup>*"
      proof
        assume "(\<exists>z. ?p = Some z \<and> (z, a) \<in> (unlocked_rel ?s1)\<^sup>*) \<or> a = w"
        then show "(w, a) \<in> (unlocked_rel s)\<^sup>*"
        proof
          assume "\<exists>z. ?p = Some z \<and> (z, a) \<in> (unlocked_rel ?s1)\<^sup>*"
          then obtain z where z: "?p = Some z" and za: "(z, a) \<in> (unlocked_rel ?s1)\<^sup>*"
            by blast
          have "unlocked_rel ?s1 \<subseteq> unlocked_rel s"
            unfolding r1 by auto
          from rtrancl_mono [OF this] za have "(z, a) \<in> (unlocked_rel s)\<^sup>*"
            by blast
          moreover from z w u have "(w, z) \<in> unlocked_rel s"
            by (simp add: unlocked_rel_def)
          ultimately show ?thesis
            by (rule converse_rtrancl_into_rtrancl [rotated])
        next
          assume "a = w"
          then show ?thesis by simp
        qed
      next
        assume "(w, a) \<in> (unlocked_rel s)\<^sup>*"
        then show "(\<exists>z. ?p = Some z \<and> (z, a) \<in> (unlocked_rel ?s1)\<^sup>*) \<or> a = w"
        proof (cases rule: converse_rtranclE)
          case base
          then show ?thesis by simp
        next
          case (step z)
          from step(1) have z: "?p = Some z"
            by (simp add: unlocked_rel_def)
          from unlocked_reach [OF step(2) step(1)] z show ?thesis
            unfolding r1 by blast
        qed
      qed
      with ih l1 have "locked (worlds (lock_loop s (Some w)) ! a) \<longleftrightarrow>
          locked (worlds s ! a) \<or> (w, a) \<in> (unlocked_rel s)\<^sup>*"
        unfolding eq by blast
      then show ?thesis
        by (simp add: Some)
    qed
  qed
qed

text \<open>
  Claim C8, as the code has it. When \<^verbatim>\<open>world.lock()\<close> returns, the world is locked, and a
  world is locked exactly if it was locked before or is reached from the world along
  parents that were not locked: the loop stops at the first locked world. All
  ancestors are locked when before the call the parent of every locked world was locked.
  A write to a slot of a model held by a locked world raises the locked-world error; for
  an index that is no slot of the model, \<^verbatim>\<open>_writeSlot\<close> returns \<^verbatim>\<open>undefined\<close>. In both
  cases the store stays as it is.
\<close>

theorem lock_locks_ancestors:
  assumes "w < length (worlds s)" and "World_lock w s = Inr s'"
  shows "locked (worlds s' ! w) \<and>
         (\<forall>a < length (worlds s).
            locked (worlds s' ! a) \<longleftrightarrow> locked (worlds s ! a) \<or> (w, a) \<in> (unlocked_rel s)\<^sup>*) \<and>
         (lock_closed s \<longrightarrow> (\<forall>a. (w, a) \<in> (parent_rel s')\<^sup>* \<longrightarrow> locked (worlds s' ! a))) \<and>
         (\<forall>a ident index v. locked (worlds s' ! a) \<longrightarrow>
            Model_writeSlot (a, ident) index v s' =
              (if index < slotCount (deref s' (a, ident)) then Inl LockedWrite
               else Inr (Undefined, s')))"
proof (intro conjI allI impI)
  let ?s1 = "lock_loop s (Some w)"
  have fr: "length (worlds ?s1) = length (worlds s)"
    using lock_loop_frame [of s "Some w"] by simp
  from assms(2) have same: "same_locks ?s1 s'"
    unfolding World_lock_def by (rule World_requestLookupCache_same)
  from lock_loop_target [OF assms(1)] same fr assms(1) show "locked (worlds s' ! w)"
    by (simp add: same_locks_def)
  show "locked (worlds s' ! a) \<longleftrightarrow> locked (worlds s ! a) \<or> (w, a) \<in> (unlocked_rel s)\<^sup>*"
    if "a < length (worlds s)" for a
    using that same fr lock_loop_locks [OF that, of "Some w"] by (simp add: same_locks_def)
  show "locked (worlds s' ! a)" if "lock_closed s" "(w, a) \<in> (parent_rel s')\<^sup>*" for a
    using lock_closed_ancestors [OF that(1) assms that(2)] by simp
  show "Model_writeSlot (a, ident) index v s' =
      (if index < slotCount (deref s' (a, ident)) then Inl LockedWrite else Inr (Undefined, s'))"
    if "locked (worlds s' ! a)" for a ident index v
    using that by (simp add: Model_writeSlot_def)
qed


subsection \<open>The stores that the operations on worlds build\<close>

text \<open>Every child is in the \<^verbatim>\<open>_children\<close> set of its parent.\<close>

definition children_ok :: "'v store \<Rightarrow> bool" where
  "children_ok s \<longleftrightarrow>
     (\<forall>c < length (worlds s). \<forall>p. parent (worlds s ! c) = Some p \<longrightarrow> c \<in> set (children (worlds s ! p)))"

definition store_inv :: "'v store \<Rightarrow> bool" where
  "store_inv s \<longleftrightarrow> lock_closed s \<and> children_ok s"

lemma store_inv_empty: "store_inv \<lparr>worlds = [], keyStreams = []\<rparr>"
  by (simp add: store_inv_def lock_closed_def children_ok_def)

lemma same_locks_children_ok:
  assumes "same_locks s s'" "lock_closed s" "children_ok s"
  shows "children_ok s'"
  unfolding children_ok_def
proof (intro allI impI)
  fix c p assume c': "c < length (worlds s')" and par: "parent (worlds s' ! c) = Some p"
  from assms(1) c' have c: "c < length (worlds s)" by (simp add: same_locks_def)
  with assms(1) par have par0: "parent (worlds s ! c) = Some p" by (simp add: same_locks_def)
  with assms(2) c have p: "p < length (worlds s)"
    by (auto simp: lock_closed_def split: option.splits)
  from assms(3) c par0 have "c \<in> set (children (worlds s ! p))"
    by (simp add: children_ok_def)
  with assms(1) p show "c \<in> set (children (worlds s' ! p))"
    by (simp add: same_locks_def)
qed

lemma lock_loop_children:
  "\<forall>i < length (worlds s). children (worlds (lock_loop s x) ! i) = children (worlds s ! i)"
proof (induction s x rule: lock_loop.induct)
  case (1 s world)
  show ?case
  proof (cases world)
    case None
    then show ?thesis by (simp add: lock_loop_None)
  next
    case (Some w)
    show ?thesis
    proof (cases "w < length (worlds s) \<and> \<not> locked (worlds s ! w)")
      case False
      with Some show ?thesis by (simp add: lock_loop_stop)
    next
      case True
      with Some "1.IH" [OF Some] show ?thesis
        by (simp add: lock_loop_step upd_world_nth)
    qed
  qed
qed

lemma World_lock_inv:
  assumes "store_inv s" and "World_lock w s = Inr s'"
  shows "store_inv s'"
proof -
  let ?s1 = "lock_loop s (Some w)"
  from assms(1) have c1: "lock_closed ?s1"
    by (intro lock_loop_closed lock_closed_inv) (simp add: store_inv_def)
  have "children_ok ?s1"
    unfolding children_ok_def
  proof (intro allI impI)
    fix c p assume "c < length (worlds ?s1)" and par: "parent (worlds ?s1 ! c) = Some p"
    with lock_loop_frame [of s "Some w"] have c: "c < length (worlds s)"
      and par0: "parent (worlds s ! c) = Some p" by auto
    with assms(1) have "p < length (worlds s)" "c \<in> set (children (worlds s ! p))"
      by (auto simp: store_inv_def lock_closed_def children_ok_def split: option.splits)
    with lock_loop_children [of s "Some w"] show "c \<in> set (children (worlds ?s1 ! p))"
      by simp
  qed
  moreover from assms(2) have same: "same_locks ?s1 s'"
    unfolding World_lock_def by (rule World_requestLookupCache_same)
  ultimately show ?thesis
    using c1 by (auto simp: store_inv_def intro: same_locks_closed same_locks_children_ok)
qed

lemma new_World_inv:
  assumes "store_inv s" and "case par of None \<Rightarrow> True | Some p \<Rightarrow> p < length (worlds s)"
  shows "store_inv (snd (new_World par s))"
proof (cases par)
  case None
  with assms(1) show ?thesis
    by (auto simp: new_World_def Let_def store_inv_def lock_closed_def children_ok_def
          nth_append less_Suc_eq split: option.splits)
next
  case (Some p)
  with assms(2) have p: "p < length (worlds s)" by simp
  let ?nw = "\<lparr>parent = Some p, models = [], keyStream = keyStream (worlds s ! p), children = [],
              locked = False, lookupCache = None\<rparr> :: 'a world"
  let ?s2 = "s\<lparr>worlds := worlds s @ [?nw]\<rparr>"
  let ?s3 = "upd_world p (\<lambda>x. x\<lparr>children := set_add (length (worlds s)) (children x)\<rparr>) ?s2"
  have eq: "snd (new_World par s) = ?s3"
    by (simp add: new_World_def Let_def Some)
  have nth: "\<And>i. i < length (worlds s) \<Longrightarrow>
      parent (worlds ?s3 ! i) = parent (worlds s ! i) \<and>
      locked (worlds ?s3 ! i) = locked (worlds s ! i) \<and>
      set (children (worlds s ! i)) \<subseteq> set (children (worlds ?s3 ! i))"
    by (auto simp: upd_world_nth nth_append set_add_def)
  have new: "parent (worlds ?s3 ! length (worlds s)) = Some p"
    "\<not> locked (worlds ?s3 ! length (worlds s))"
    "length (worlds s) \<in> set (children (worlds ?s3 ! p))"
    using p by (auto simp: upd_world_nth nth_append set_add_def)
  have len: "length (worlds ?s3) = Suc (length (worlds s))"
    by simp
  show ?thesis
    unfolding eq store_inv_def lock_closed_def children_ok_def len
  proof (intro conjI allI impI)
    fix c assume "c < Suc (length (worlds s))"
    then consider "c < length (worlds s)" | "c = length (worlds s)" by linarith
    then show "case parent (worlds ?s3 ! c) of None \<Rightarrow> True
               | Some q \<Rightarrow> q < Suc (length (worlds s)) \<and>
                           (locked (worlds ?s3 ! c) \<longrightarrow> locked (worlds ?s3 ! q))"
    proof cases
      case 1
      show ?thesis
      proof (cases "parent (worlds s ! c)")
        case None
        with nth [OF 1] show ?thesis by simp
      next
        case (Some q)
        with assms(1) 1 have "q < length (worlds s)"
          "locked (worlds s ! c) \<longrightarrow> locked (worlds s ! q)"
          by (auto simp: store_inv_def lock_closed_def split: option.splits)
        with nth [OF 1] nth [of q] Some show ?thesis by simp
      qed
    next
      case 2
      with new p show ?thesis by simp
    qed
  next
    fix c q assume "c < Suc (length (worlds s))" and par: "parent (worlds ?s3 ! c) = Some q"
    then consider "c < length (worlds s)" | "c = length (worlds s)" by linarith
    then show "c \<in> set (children (worlds ?s3 ! q))"
    proof cases
      case 1
      with nth [OF 1] par have par0: "parent (worlds s ! c) = Some q" by simp
      with assms(1) 1 have "q < length (worlds s)" "c \<in> set (children (worlds s ! q))"
        by (auto simp: store_inv_def lock_closed_def children_ok_def split: option.splits)
      with nth [of q] show ?thesis by auto
    next
      case 2
      with new par show ?thesis by simp
    qed
  qed
qed

text \<open>The loop of \<^verbatim>\<open>unlock\<close>: a locked world below an unlocked one is still in the
  queue.\<close>

definition unlock_inv :: "'v store \<Rightarrow> nat list \<Rightarrow> bool" where
  "unlock_inv s q \<longleftrightarrow>
     children_ok s \<and>
     (\<forall>c < length (worlds s).
        case parent (worlds s ! c) of
          None \<Rightarrow> True
        | Some p \<Rightarrow> p < length (worlds s) \<and>
                    (locked (worlds s ! c) \<longrightarrow> locked (worlds s ! p) \<or> c \<in> set q))"

lemma unlock_loop_inv: "unlock_inv s q \<Longrightarrow> store_inv (unlock_loop s q)"
proof (induction s q rule: unlock_loop.induct)
  case (1 s queue)
  show ?case
  proof (cases "queue = []")
    case True
    with "1.prems" show ?thesis
      by (subst unlock_loop.simps)
         (auto simp: unlock_inv_def store_inv_def lock_closed_def split: option.splits)
  next
    case False
    define w where "w = last queue"
    define q where "q = butlast queue"
    from False have queue: "queue = q @ [w]"
      by (simp add: w_def q_def)
    show ?thesis
    proof (cases "w < length (worlds s) \<and> locked (worlds s ! w)")
      case True
      let ?s1 = "upd_world w (\<lambda>x. x\<lparr>locked := False, lookupCache := None\<rparr>) s"
      from False True have eq: "unlock_loop s queue = unlock_loop ?s1 (q @ children (worlds s ! w))"
        by (subst unlock_loop.simps) (simp add: w_def q_def Let_def)
      have "unlock_inv ?s1 (q @ children (worlds s ! w))"
        unfolding unlock_inv_def
      proof (intro conjI allI impI)
        from "1.prems" show "children_ok ?s1"
          by (auto simp: unlock_inv_def children_ok_def upd_world_nth split: option.splits)
      next
        fix c assume "c < length (worlds ?s1)"
        then have c: "c < length (worlds s)" by simp
        show "case parent (worlds ?s1 ! c) of None \<Rightarrow> True
              | Some p \<Rightarrow> p < length (worlds ?s1) \<and>
                  (locked (worlds ?s1 ! c) \<longrightarrow>
                   locked (worlds ?s1 ! p) \<or> c \<in> set (q @ children (worlds s ! w)))"
        proof (cases "parent (worlds s ! c)")
          case None
          with c show ?thesis by (auto simp: upd_world_nth)
        next
          case (Some p)
          with "1.prems" c have p: "p < length (worlds s)"
            and l: "locked (worlds s ! c) \<longrightarrow> locked (worlds s ! p) \<or> c \<in> set queue"
            and ch: "c \<in> set (children (worlds s ! p))"
            by (auto simp: unlock_inv_def children_ok_def split: option.splits)
          from Some c p l ch queue show ?thesis
            by (auto simp: upd_world_nth)
        qed
      qed
      with "1.IH"(1) [OF False w_def q_def True] show ?thesis
        unfolding eq by simp
    next
      case nl: False
      from False nl have eq: "unlock_loop s queue = unlock_loop s q"
        by (subst unlock_loop.simps) (auto simp: w_def q_def Let_def)
      have "unlock_inv s q"
        unfolding unlock_inv_def
      proof (intro conjI allI impI)
        from "1.prems" show "children_ok s" by (simp add: unlock_inv_def)
      next
        fix c assume c: "c < length (worlds s)"
        show "case parent (worlds s ! c) of None \<Rightarrow> True
              | Some p \<Rightarrow> p < length (worlds s) \<and>
                  (locked (worlds s ! c) \<longrightarrow> locked (worlds s ! p) \<or> c \<in> set q)"
        proof (cases "parent (worlds s ! c)")
          case None
          then show ?thesis by simp
        next
          case (Some p)
          with "1.prems" c have p: "p < length (worlds s)"
            and l: "locked (worlds s ! c) \<longrightarrow> locked (worlds s ! p) \<or> c \<in> set queue"
            by (auto simp: unlock_inv_def split: option.splits)
          from Some c p l queue nl show ?thesis
            by auto
        qed
      qed
      with "1.IH"(2) [OF False w_def q_def nl] show ?thesis
        unfolding eq by simp
    qed
  qed
qed

lemma World_unlock_inv:
  assumes "store_inv s"
  shows "store_inv (World_unlock w s)"
proof (cases "locked (worlds s ! w)")
  case False
  with assms show ?thesis by (simp add: World_unlock_def)
next
  case True
  from assms have "unlock_inv s [w]"
    by (auto simp: unlock_inv_def store_inv_def lock_closed_def split: option.splits)
  with True show ?thesis
    by (simp add: World_unlock_def unlock_loop_inv)
qed

lemma World_detach_inv:
  assumes "store_inv s" and "w < length (worlds s)"
  shows "store_inv (World_detach w s)"
proof (cases "parent (worlds s ! w)")
  case None
  with assms show ?thesis by (simp add: World_detach_def)
next
  case (Some p)
  let ?s1 = "upd_world p (\<lambda>x. x\<lparr>children := removeAll w (children x)\<rparr>) s"
  let ?s2 = "upd_world w (\<lambda>x. x\<lparr>parent := None\<rparr>) ?s1"
  have eq: "World_detach w s = ?s2"
    by (simp add: World_detach_def Some)
  have nth: "\<And>i. i < length (worlds s) \<Longrightarrow>
      parent (worlds ?s2 ! i) = (if i = w then None else parent (worlds s ! i)) \<and>
      locked (worlds ?s2 ! i) = locked (worlds s ! i) \<and>
      set (children (worlds s ! i)) - {w} \<subseteq> set (children (worlds ?s2 ! i))"
    by (auto simp: upd_world_nth)
  show ?thesis
    unfolding eq store_inv_def lock_closed_def children_ok_def
  proof (intro conjI allI impI)
    fix c assume "c < length (worlds ?s2)"
    then have c: "c < length (worlds s)" by simp
    show "case parent (worlds ?s2 ! c) of None \<Rightarrow> True
          | Some q \<Rightarrow> q < length (worlds ?s2) \<and>
                      (locked (worlds ?s2 ! c) \<longrightarrow> locked (worlds ?s2 ! q))"
    proof (cases "parent (worlds ?s2 ! c)")
      case None
      then show ?thesis by simp
    next
      case (Some q)
      with nth [OF c] have cw: "c \<noteq> w" and par0: "parent (worlds s ! c) = Some q"
        by (auto split: if_splits)
      with assms(1) c have q: "q < length (worlds s)"
        "locked (worlds s ! c) \<longrightarrow> locked (worlds s ! q)"
        by (auto simp: store_inv_def lock_closed_def split: option.splits)
      from nth [OF c] nth [OF q(1)] q have
        "q < length (worlds ?s2)" "locked (worlds ?s2 ! c) \<longrightarrow> locked (worlds ?s2 ! q)"
        by simp_all
      with Some show ?thesis by simp
    qed
  next
    fix c q assume "c < length (worlds ?s2)" and par: "parent (worlds ?s2 ! c) = Some q"
    then have c: "c < length (worlds s)" by simp
    with nth [OF c] par have cw: "c \<noteq> w" and par0: "parent (worlds s ! c) = Some q"
      by (auto split: if_splits)
    with assms(1) c have "q < length (worlds s)" "c \<in> set (children (worlds s ! q))"
      by (auto simp: store_inv_def lock_closed_def children_ok_def split: option.splits)
    with nth [of q] cw show "c \<in> set (children (worlds ?s2 ! q))" by auto
  qed
qed

text \<open>A store with a root world that holds a model with one slot, and a child world.\<close>

definition store1 :: "nat store" where
  "store1 = World_add 0 ''@1'' 1 (snd (new_World (Some 0) store0))"

theorem lock_locks_ancestors_witness:
  "\<exists>s'. 1 < length (worlds store1) \<and> World_lock 1 store1 = Inr s' \<and> lock_closed store1 \<and>
        (1, 0) \<in> (parent_rel s')\<^sup>* \<and> (1, 0) \<in> (unlocked_rel store1)\<^sup>* \<and>
        locked (worlds s' ! 1) \<and> locked (worlds s' ! 0) \<and>
        Model_writeSlot (0, ''@1'') 0 (Prim 7) s' = Inl LockedWrite"
proof -
  define s' where "s' = projr (World_lock 1 store1)"
  have "\<not> isl (World_lock 1 store1)"
    by code_simp
  then have lock: "World_lock 1 store1 = Inr s'"
    by (cases "World_lock 1 store1") (simp_all add: s'_def)
  have st: "worlds store1 =
      [\<lparr>parent = None, models = [(''@1'', new_Model 1)], keyStream = 0, children = [1],
        locked = False, lookupCache = None\<rparr>,
       \<lparr>parent = Some 0, models = [], keyStream = 0, children = [],
        locked = False, lookupCache = None\<rparr>]"
    by code_simp
  have closed: "lock_closed store1"
    by (auto simp: lock_closed_def st less_Suc_eq)
  have len: "1 < length (worlds store1)"
    by (simp add: st)
  have "length (worlds s') = 2" "parent (worlds s' ! 1) = Some 0"
    unfolding s'_def by code_simp+
  then have anc: "(1, 0) \<in> (parent_rel s')\<^sup>*"
    by (intro r_into_rtrancl) (simp add: parent_rel_def)
  have un: "(1, 0) \<in> (unlocked_rel store1)\<^sup>*"
    by (intro r_into_rtrancl) (simp add: unlocked_rel_def st)
  have slot: "0 < slotCount (deref s' (0, ''@1''))"
    unfolding s'_def by code_simp
  note t = lock_locks_ancestors [OF len lock]
  from t have l1: "locked (worlds s' ! 1)"
    by blast
  from t closed anc have l0: "locked (worlds s' ! 0)"
    by blast
  from t l0 slot have "Model_writeSlot (0, ''@1'') 0 (Prim 7) s' = Inl LockedWrite"
    by simp
  with closed len lock anc un l1 l0 show ?thesis
    by blast
qed

text \<open>
  A world of its own is locked and then given the root world as its parent by the
  setter of \<^verbatim>\<open>parent\<close>. \<^verbatim>\<open>lock\<close> of this world returns at once: its parent stays
  unlocked, and a write to a slot of a model of the parent is done.
\<close>

definition reparented :: "nat store" where
  "reparented =
     World_set_parent 1 0
       (projr (World_lock 1 (snd (new_World None (World_add 0 ''@1'' 1 store0)))))"


theorem reparented_lock_counterexample:
  "\<not> isl (World_lock 1 reparented) \<and>
   parent (worlds (projr (World_lock 1 reparented)) ! 1) = Some 0 \<and>
   locked (worlds (projr (World_lock 1 reparented)) ! 1) \<and>
   \<not> locked (worlds (projr (World_lock 1 reparented)) ! 0) \<and>
   map_sum id fst (Model_writeSlot (0, ''@1'') 0 (Prim 7) (projr (World_lock 1 reparented)))
     = Inr (Prim 7)"
  by code_simp



section \<open>Commit of a world that has read a slot\<close>

text \<open>
  The root world holds the models \<open>a\<close> (one slot) and \<open>b\<close>; slot 0 of \<open>a\<close> is written
  with the value \<open>v\<close>. A child world binds \<open>a\<close> and reads the slot, nothing else.
\<close>

definition commit_scenario :: "nat val \<Rightarrow> error + nat store" where
  "commit_scenario v =
     bindE (Model_writeSlot (0, ''a'') 0 v
              (World_add 0 ''a'' 1 (World_add 0 ''b'' 0 store0))) (\<lambda>(x, s1).
     let (w, s2) = new_World (Some 0) s1 in
     bindE (World_bind w (IdString ''a'') s2) (\<lambda>(m, s3).
     bindE (Model_readSlot (w, ''a'') 0 s3) (\<lambda>(y, s4). Inr s4)))"

text \<open>A watcher that counts its calls, subscribed after one mutation of model \<open>a\<close> in
  world 0 has been pushed on the stream.\<close>

theorem subscribe_delivers_current_witness:
  "([Suc 0, 2] \<noteq> [] \<and>
    snd (snd (subscribe (\<lambda>v log. log @ [v]) (fold push [Suc 0, 2] (new_stream, [])))) = [2]) \<and>
   (\<exists>s a. commit_scenario (Prim 5) = Inr s \<and>
      current (mutations (a :: (nat, nat) waveapp)) = Some 0 \<and>
      World_findOwn s 0 ''a'' = Some \<lparr>reads = [NoneTok], writes = [Prim 5]\<rparr> \<and>
      Model_isModified \<lparr>reads = [NoneTok], writes = [Prim 5 :: nat val]\<rparr> \<and>
      snd (snd (WaveApp_watch ''a'' (\<lambda>(s, n). (s, Suc n)) (a, s, 0))) = (s, Suc 0))"
proof (intro conjI)
  show "[Suc 0, 2] \<noteq> []" by simp
  from subscribe_delivers_current [where vs = "[Suc 0, 2]" and fn = "\<lambda>v log. log @ [v]" and
      p = "(new_stream, [])", THEN conjunct1]
  show "snd (snd (subscribe (\<lambda>v log. log @ [v]) (fold push [Suc 0, 2] (new_stream, [])))) = [2]"
    by (simp add: push_def new_stream_def)
next
  define s where "s = projr (commit_scenario (Prim 5))"
  define a :: "(nat, nat) waveapp" where
    "a = (new_WaveApp 0)\<lparr>mutations := fst (push 0 (new_stream, (s, 0)))\<rparr>"
  have "\<not> isl (commit_scenario (Prim 5))"
    by code_simp
  then have sc: "commit_scenario (Prim 5) = Inr s"
    by (cases "commit_scenario (Prim 5)") (simp_all add: s_def)
  have cur: "current (mutations a) = Some 0"
    by (simp add: a_def push_def)
  have own: "World_findOwn s 0 ''a'' = Some \<lparr>reads = [NoneTok], writes = [Prim 5]\<rparr>"
    unfolding s_def by code_simp
  have md: "Model_isModified \<lparr>reads = [NoneTok], writes = [Prim 5 :: nat val]\<rparr>"
    by code_simp
  from subscribe_delivers_current [where a = a and w = 0 and s = s and ref = "''a''" and
        m = "\<lparr>reads = [NoneTok], writes = [Prim 5]\<rparr>" and g = "\<lambda>(s, n). (s, Suc n)" and ob = 0,
      THEN conjunct2] cur own md
  have "snd (snd (WaveApp_watch ''a'' (\<lambda>(s, n). (s, Suc n)) (a, s, 0))) = (s, Suc 0)"
    by simp
  with sc cur own md show "\<exists>s a. commit_scenario (Prim 5) = Inr s \<and>
      current (mutations (a :: (nat, nat) waveapp)) = Some 0 \<and>
      World_findOwn s 0 ''a'' = Some \<lparr>reads = [NoneTok], writes = [Prim 5]\<rparr> \<and>
      Model_isModified \<lparr>reads = [NoneTok], writes = [Prim 5 :: nat val]\<rparr> \<and>
      snd (snd (WaveApp_watch ''a'' (\<lambda>(s, n). (s, Suc n)) (a, s, 0))) = (s, Suc 0)"
    by blast
qed

text \<open>
  Claim C4, at a child world whose only action was to read a slot that holds a reference.
  The read it has cached and the value of the parent are the same reference, yet
  \<^verbatim>\<open>World.commit\<close> fails its check: after \<^verbatim>\<open>my.equal(other)\<close> has passed,
  \<^verbatim>\<open>committable\<close> goes on to \<^verbatim>\<open>my != other\<close>, which compares the model bound in the
  child world with the model bound in the parent world, two objects. With a value that is
  no reference the same commit goes through.
\<close>

theorem commit_equal_ref_conflict:
  "map_sum id (\<lambda>s. (js_nth (reads (deref s (1, ''a''))) 0, js_nth (writes (deref s (0, ''a''))) 0))
     (commit_scenario (RefV ''b'')) = Inr (RefV ''b'', RefV ''b'') \<and>
   bindE (commit_scenario (RefV ''b'')) (World_commit 1) = Inl CommitConflict \<and>
   map_sum id (\<lambda>s. (js_nth (reads (deref s (1, ''a''))) 0, js_nth (writes (deref s (0, ''a''))) 0))
     (commit_scenario (Prim 5)) = Inr (Prim 5, Prim 5) \<and>
   \<not> isl (bindE (commit_scenario (Prim 5)) (World_commit 1))"
  by code_simp


section \<open>Persistent vector (immutable.ts, class Vector)\<close>

text \<open>
  The nodes of the trie are arrays of the host language, and they are untyped: an array
  holds elements, sub-arrays or holes. \<open>Undef\<close> is \<^verbatim>\<open>undefined\<close> (also what a hole or
  an index beyond the end reads as), \<open>Atom x\<close> an element, \<open>Arr xs\<close> an array. Elements are
  opaque: where the code would use an element as a node, the model stops with
  \<open>TypeError\<close>. An index is a natural number; \<^verbatim>\<open>(index >> shift) & 31\<close> is
  \<open>(index div 2 ^ shift) mod 32\<close> for the indices below \<open>2 ^ 31\<close> that a vector can have.
\<close>

datatype 'a jsv = Undef | Atom 'a | Arr "'a jsv list"

record 'a vector =
  vroot :: "'a jsv"
  vshift :: nat
  vlength :: nat

definition nodeBits :: nat where "nodeBits = 5"
definition nodeSize :: nat where "nodeSize = 2 ^ nodeBits"
definition nodeBitmask :: nat where "nodeBitmask = nodeSize - 1"

text \<open>\<^verbatim>\<open>node[k]\<close>, first for an array, then for any value.\<close>

definition arr_get :: "'a jsv list \<Rightarrow> nat \<Rightarrow> 'a jsv" where
  "arr_get xs k = (if k < length xs then xs ! k else Undef)"

fun js_idx :: "'a jsv \<Rightarrow> nat \<Rightarrow> error + 'a jsv" where
  "js_idx (Arr xs) k = Inr (arr_get xs k)"
| "js_idx Undef k = Inl TypeError"
| "js_idx (Atom a) k = Inl TypeError"

text \<open>\<^verbatim>\<open>node.slice()\<close>\<close>

fun js_slice :: "'a jsv \<Rightarrow> error + 'a jsv list" where
  "js_slice (Arr xs) = Inr xs"
| "js_slice Undef = Inl TypeError"
| "js_slice (Atom a) = Inl TypeError"

text \<open>\<^verbatim>\<open>if (node[nindex]) node[nindex] = node[nindex].slice(); else node[nindex] = []\<close>:
  the content of the array that the path goes on with.\<close>

definition slice_or_new :: "'a jsv \<Rightarrow> error + 'a jsv list" where
  "slice_or_new child = (case child of Undef \<Rightarrow> Inr [] | _ \<Rightarrow> js_slice child)"

text \<open>The loop of \<^verbatim>\<open>get\<close>: \<^verbatim>\<open>while (shift) { ...; shift -= 5 }\<close> followed by the read of
  the leaf. A shift that is no multiple of 5 never becomes 0.\<close>

function get_loop :: "'a jsv \<Rightarrow> nat \<Rightarrow> nat \<Rightarrow> error + 'a jsv" where
  "get_loop node s i =
     (if s = 0 then js_idx node (i mod nodeSize)
      else if s < nodeBits then Inl Diverges
      else bindE (js_idx node ((i div 2 ^ s) mod nodeSize)) (\<lambda>n. get_loop n (s - nodeBits) i))"
  by pat_completeness auto
termination
  by (relation "measure (\<lambda>(node, s, i). s)") (auto simp: nodeBits_def)

declare get_loop.simps [simp del]

definition Vector_get :: "'a vector \<Rightarrow> nat \<Rightarrow> error + 'a jsv" where
  "Vector_get v i = (if \<not> i < vlength v then Inr Undef else get_loop (vroot v) (vshift v) i)"

text \<open>The loop of \<^verbatim>\<open>set\<close> on the copied root: \<^verbatim>\<open>while (shift > 0)\<close> copies or creates
  the child on the path, then the leaf is assigned.\<close>

function set_path :: "'a jsv list \<Rightarrow> nat \<Rightarrow> nat \<Rightarrow> 'a jsv \<Rightarrow> error + 'a jsv list" where
  "set_path xs s i x =
     (if s > 0 then
        let nindex = (i div 2 ^ s) mod nodeSize
        in bindE (slice_or_new (arr_get xs nindex)) (\<lambda>ys.
           bindE (set_path ys (s - nodeBits) i x) (\<lambda>ys'.
             Inr (arr_set Undef xs nindex (Arr ys'))))
      else Inr (arr_set Undef xs (i mod nodeSize) x))"
  by pat_completeness auto
termination
  by (relation "measure (\<lambda>(xs, s, i, x). s)") (auto simp: nodeBits_def)

declare set_path.simps [simp del]

text \<open>The new branch of a vector that grows by a level: \<open>k\<close> nested arrays around the
  leaf \<^verbatim>\<open>[value]\<close>.\<close>

fun chain :: "nat \<Rightarrow> 'a jsv \<Rightarrow> 'a jsv" where
  "chain 0 x = Arr [x]"
| "chain (Suc k) x = Arr [chain k x]"

text \<open>\<^verbatim>\<open>set\<close> for an index that is not beyond the length (lines 74 to 104).\<close>

definition set_at :: "'a vector \<Rightarrow> nat \<Rightarrow> 'a jsv \<Rightarrow> error + 'a vector" where
  "set_at v i x =
     (if i < vlength v \<or> vlength v < nodeSize * 2 ^ vshift v then
        bindE (js_slice (vroot v)) (\<lambda>r.
        bindE (set_path r (vshift v) i x) (\<lambda>r'.
          Inr \<lparr>vroot = Arr r', vshift = vshift v,
               vlength = (if i < vlength v then vlength v else i + 1)\<rparr>))
      else
        bindE (js_slice (vroot v)) (\<lambda>r.
          let shift' = vshift v + nodeBits
          in Inr \<lparr>vroot = Arr [Arr r, chain ((shift' + 4) div nodeBits - 1) x],
                  vshift = shift', vlength = vlength v + 1\<rparr>))"

text \<open>
  \<^verbatim>\<open>set\<close>. For an index beyond the length it first appends \<^verbatim>\<open>undefined\<close> up to the
  index, by calls \<^verbatim>\<open>vector.set(i, undefined)\<close> in which \<open>i\<close> is the length of
  \<open>vector\<close> (lemma \<open>set_at_length\<close> below), so that these calls are \<open>set_at\<close>.
\<close>

fun fill_undefined :: "nat list \<Rightarrow> 'a vector \<Rightarrow> error + 'a vector" where
  "fill_undefined [] v = Inr v"
| "fill_undefined (i # is) v = bindE (set_at v i Undef) (fill_undefined is)"

definition Vector_set :: "'a vector \<Rightarrow> nat \<Rightarrow> 'a jsv \<Rightarrow> error + 'a vector" where
  "Vector_set v i x =
     (if i > vlength v
      then bindE (fill_undefined [vlength v ..< i] v) (\<lambda>v'. set_at v' i x)
      else set_at v i x)"

definition Vector_append :: "'a vector \<Rightarrow> 'a jsv \<Rightarrow> error + 'a vector" where
  "Vector_append v x = Vector_set v (vlength v) x"

definition Vector_empty :: "'a vector" where
  "Vector_empty = \<lparr>vroot = Arr [], vshift = 0, vlength = 0\<rparr>"

text \<open>\<^verbatim>\<open>last\<close> is \<^verbatim>\<open>get(length - 1)\<close>, and \<^verbatim>\<open>get(-1)\<close> is \<^verbatim>\<open>undefined\<close>.\<close>

definition Vector_last :: "'a vector \<Rightarrow> error + 'a jsv" where
  "Vector_last v = (if vlength v = 0 then Inr Undef else Vector_get v (vlength v - 1))"


text \<open>The loop of \<^verbatim>\<open>pop\<close> for a vector whose last leaf becomes empty
  (\<^verbatim>\<open>while (shift > nodeBits)\<close>); it returns the node and the value that the local
  variable \<^verbatim>\<open>shift\<close> has after the loop.\<close>

function pop_path :: "'a jsv list \<Rightarrow> nat \<Rightarrow> nat \<Rightarrow> error + ('a jsv list \<times> nat)" where
  "pop_path xs s i =
     (if s > nodeBits then
        let localIndex = (i div 2 ^ s) mod nodeSize
        in bindE (js_idx (Arr xs) localIndex) (\<lambda>child.
           bindE (js_slice child) (\<lambda>ys.
           bindE (pop_path ys (s - nodeBits) i) (\<lambda>(ys', s').
             Inr (arr_set Undef xs localIndex (Arr ys'), s'))))
      else Inr (arr_set Undef xs ((i div 2 ^ s) mod nodeSize) Undef, s))"
  by pat_completeness auto
termination
  by (relation "measure (\<lambda>(xs, s, i). s)") (auto simp: nodeBits_def)

declare pop_path.simps [simp del]

text \<open>\<^verbatim>\<open>pop\<close>. In \<^verbatim>\<open>nodeSize << (this.shift - nodeBits)\<close> a negative shift count is
  taken modulo 32 and gives 0, which \<^verbatim>\<open>length - 1\<close> is not. The last branch returns the
  vector with the local \<^verbatim>\<open>shift\<close>, not with \<^verbatim>\<open>this.shift\<close>.\<close>

definition Vector_pop :: "'a vector \<Rightarrow> error + 'a vector" where
  "Vector_pop v =
     (if vlength v < 2 then Inr Vector_empty
      else if vlength v mod nodeSize \<noteq> 1 then
        bindE (Vector_set v (vlength v - 1) Undef) (\<lambda>vector.
          Inr \<lparr>vroot = vroot vector, vshift = vshift vector, vlength = vlength vector - 1\<rparr>)
      else if vshift v \<ge> nodeBits \<and> vlength v - 1 = nodeSize * 2 ^ (vshift v - nodeBits) then
        bindE (js_idx (vroot v) 0) (\<lambda>r.
          Inr \<lparr>vroot = r, vshift = vshift v - nodeBits, vlength = vlength v - 1\<rparr>)
      else
        bindE (js_slice (vroot v)) (\<lambda>r.
        bindE (pop_path r (vshift v) (vlength v - 1)) (\<lambda>(r', shift').
          Inr \<lparr>vroot = Arr r', vshift = shift', vlength = vlength v - 1\<rparr>)))"

subsection \<open>Reading what was set\<close>

lemma length_arr_set: "length (arr_set u xs k v) = max (length xs) (Suc k)"
  by (auto simp: arr_set_def)

lemma arr_set_index_less [simp]: "k < length (arr_set u xs k v)"
  by (simp add: length_arr_set less_max_iff_disj)

lemma arr_set_same [simp]: "arr_set u xs k v ! k = v"
  by (auto simp: arr_set_def nth_append)

lemma nth_arr_set:
  "j < length (arr_set u xs k v) \<Longrightarrow>
   arr_set u xs k v ! j = (if j = k then v else if j < length xs then xs ! j else u)"
  by (auto simp: arr_set_def nth_append nth_list_update)

lemma arr_get_arr_set: "arr_get (arr_set Undef xs k v) j = (if j = k then v else arr_get xs j)"
  by (auto simp: arr_get_def nth_arr_set length_arr_set)

lemma arr_get_arr_set_same [simp]: "arr_get (arr_set Undef xs k v) k = v"
  by (simp add: arr_get_arr_set)

lemma arr_get_arr_set_other [simp]: "j \<noteq> k \<Longrightarrow> arr_get (arr_set Undef xs k v) j = arr_get xs j"
  by (simp add: arr_get_arr_set)

lemma arr_get_Nil [simp]: "arr_get [] k = Undef"
  by (simp add: arr_get_def)

lemma slice_or_new_simps [simp]:
  "slice_or_new Undef = Inr []"
  "slice_or_new (Arr ys) = Inr ys"
  "slice_or_new (Atom a) = Inl TypeError"
  by (simp_all add: slice_or_new_def)

lemma js_idx_Inr: "js_idx node k = Inr y \<Longrightarrow> \<exists>xs. node = Arr xs"
  by (cases node) simp_all

lemma get_loop_0: "get_loop node 0 i = js_idx node (i mod nodeSize)"
  by (subst get_loop.simps) simp

lemma get_loop_small: "0 < s \<Longrightarrow> s < nodeBits \<Longrightarrow> get_loop node s i = Inl Diverges"
  by (subst get_loop.simps) simp

lemma get_loop_step:
  "nodeBits \<le> s \<Longrightarrow>
   get_loop node s i =
     bindE (js_idx node ((i div 2 ^ s) mod nodeSize)) (\<lambda>n. get_loop n (s - nodeBits) i)"
  by (subst get_loop.simps) (simp add: nodeBits_def)

lemma get_loop_Inr: "get_loop node s i = Inr y \<Longrightarrow> \<exists>xs. node = Arr xs"
  by (cases "s = 0"; cases "s < nodeBits")
     (auto simp: get_loop_0 get_loop_small get_loop_step bindE_eq_Inr dest: js_idx_Inr)

lemma set_path_0: "set_path xs 0 i x = Inr (arr_set Undef xs (i mod nodeSize) x)"
  by (subst set_path.simps) simp

lemma set_path_step:
  "0 < s \<Longrightarrow>
   set_path xs s i x =
     bindE (slice_or_new (arr_get xs ((i div 2 ^ s) mod nodeSize))) (\<lambda>ys.
     bindE (set_path ys (s - nodeBits) i x) (\<lambda>ys'.
       Inr (arr_set Undef xs ((i div 2 ^ s) mod nodeSize) (Arr ys'))))"
  by (subst set_path.simps) (simp add: Let_def)

lemma set_path_reads:
  "get_loop (Arr xs) s i = Inr y \<Longrightarrow>
   \<exists>xs'. set_path xs s i x = Inr xs' \<and> get_loop (Arr xs') s i = Inr x"
proof (induction xs s i x arbitrary: y rule: set_path.induct)
  case (1 xs s i x)
  consider "s = 0" | "0 < s" "s < nodeBits" | "nodeBits \<le> s"
    by linarith
  then show ?case
  proof cases
    case 1
    then show ?thesis by (simp add: set_path_0 get_loop_0)
  next
    case 2
    with "1.prems" show ?thesis by (simp add: get_loop_small)
  next
    case 3
    then have s: "0 < s" by (simp add: nodeBits_def)
    define k where "k = (i div 2 ^ s) mod nodeSize"
    from "1.prems" 3 have g: "get_loop (arr_get xs k) (s - nodeBits) i = Inr y"
      by (simp add: get_loop_step bindE_eq_Inr k_def)
    then obtain ys where ys: "arr_get xs k = Arr ys"
      by (auto dest: get_loop_Inr)
    then have sl: "slice_or_new (arr_get xs k) = Inr ys"
      by simp
    from "1.IH" [OF s k_def sl, of y] g ys obtain ys' where
      ys': "set_path ys (s - nodeBits) i x = Inr ys'" "get_loop (Arr ys') (s - nodeBits) i = Inr x"
      by auto
    have sp: "set_path xs s i x = Inr (arr_set Undef xs k (Arr ys'))"
      using ys'(1) s sl by (simp add: set_path_step k_def [symmetric])
    show ?thesis
      using ys'(2) 3 by (simp add: sp get_loop_step [of s] k_def [symmetric])
  qed
qed

text \<open>
  Whenever \<^verbatim>\<open>v.get(i)\<close> returns for an index below the length, \<^verbatim>\<open>v.set(i, x)\<close> returns
  a vector of the same length in which \<^verbatim>\<open>get(i)\<close> is \<open>x\<close>.
\<close>

lemma set_get_readable:
  assumes "i < vlength v" and "Vector_get v i = Inr y"
  shows "\<exists>v'. Vector_set v i x = Inr v' \<and> Vector_get v' i = Inr x \<and> vlength v' = vlength v"
proof -
  from assms have g: "get_loop (vroot v) (vshift v) i = Inr y"
    by (simp add: Vector_get_def)
  then obtain r where r: "vroot v = Arr r"
    by (auto dest: get_loop_Inr)
  from set_path_reads [of r "vshift v" i y x] g r obtain r' where
    "set_path r (vshift v) i x = Inr r'" "get_loop (Arr r') (vshift v) i = Inr x"
    by auto
  with assms(1) r show ?thesis
    by (simp add: Vector_set_def set_at_def Vector_get_def)
qed


subsection \<open>Vectors built by \<open>set\<close> and \<open>append\<close>\<close>

lemma set_at_length:
  "set_at v i x = Inr v' \<Longrightarrow> i \<le> vlength v \<Longrightarrow>
   vlength v' = (if i < vlength v then vlength v else i + 1)"
  by (auto simp: set_at_def bindE_eq_Inr Let_def split: if_splits)

text \<open>A node of depth \<open>d\<close>: arrays down to the leaves, with holes where nothing was set.\<close>

fun okn :: "nat \<Rightarrow> 'a jsv \<Rightarrow> bool" where
  "okn 0 (Arr xs) = True"
| "okn (Suc d) (Arr xs) = (\<forall>c \<in> set xs. c = Undef \<or> okn d c)"
| "okn d Undef = False"
| "okn d (Atom a) = False"

text \<open>The vector \<open>v\<close> holds the sequence \<open>xs\<close>.\<close>

definition holds :: "'a vector \<Rightarrow> 'a jsv list \<Rightarrow> bool" where
  "holds v xs \<longleftrightarrow>
     vlength v = length xs \<and>
     (\<exists>d. vshift v = nodeBits * d \<and> length xs \<le> nodeSize ^ Suc d \<and> okn d (vroot v) \<and>
          (\<forall>j < length xs. get_loop (vroot v) (nodeBits * d) j = Inr (xs ! j)))"

lemma okn_Arr: "okn d c \<Longrightarrow> \<exists>ys. c = Arr ys"
  by (cases c) simp_all

lemma okn_Nil [simp]: "okn d (Arr [])"
  by (cases d) simp_all

lemma okn_arr_get: "okn (Suc d) (Arr xs) \<Longrightarrow> arr_get xs k = Undef \<or> okn d (arr_get xs k)"
  by (auto simp: arr_get_def)

lemma set_arr_set: "set (arr_set u xs k v) \<subseteq> insert u (insert v (set xs))"
  by (auto simp: arr_set_def dest: set_update_subset_insert [THEN subsetD])

lemma okn_arr_set:
  "okn (Suc d) (Arr xs) \<Longrightarrow> okn d c \<Longrightarrow> okn (Suc d) (Arr (arr_set Undef xs k c))"
  using set_arr_set [of Undef xs k c] by auto

lemma get_loop_add:
  "get_loop node (nodeBits + s) i =
     bindE (js_idx node ((i div 2 ^ (nodeBits + s)) mod nodeSize)) (\<lambda>n. get_loop n s i)"
  by (subst get_loop_step) simp_all

lemma set_path_add:
  "set_path xs (nodeBits + s) i x =
     bindE (slice_or_new (arr_get xs ((i div 2 ^ (nodeBits + s)) mod nodeSize))) (\<lambda>ys.
     bindE (set_path ys s i x) (\<lambda>ys'.
       Inr (arr_set Undef xs ((i div 2 ^ (nodeBits + s)) mod nodeSize) (Arr ys'))))"
  by (subst set_path_step) (simp_all add: nodeBits_def)

lemma get_loop_Suc:
  "get_loop node (nodeBits * Suc d) i =
     bindE (js_idx node ((i div 2 ^ (nodeBits * Suc d)) mod nodeSize))
       (\<lambda>n. get_loop n (nodeBits * d) i)"
  by (subst get_loop_step) simp_all

lemma set_path_Suc:
  "set_path xs (nodeBits * Suc d) i x =
     bindE (slice_or_new (arr_get xs ((i div 2 ^ (nodeBits * Suc d)) mod nodeSize))) (\<lambda>ys.
     bindE (set_path ys (nodeBits * d) i x) (\<lambda>ys'.
       Inr (arr_set Undef xs ((i div 2 ^ (nodeBits * Suc d)) mod nodeSize) (Arr ys'))))"
  by (subst set_path_step) (simp_all add: nodeBits_def)

lemma set_path_okn:
  "okn d (Arr xs) \<Longrightarrow>
   \<exists>xs'. set_path xs (nodeBits * d) i x = Inr xs' \<and> okn d (Arr xs') \<and>
         get_loop (Arr xs') (nodeBits * d) i = Inr x"
proof (induction d arbitrary: xs)
  case 0
  then show ?case by (simp add: set_path_0 get_loop_0)
next
  case (Suc d)
  define k where "k = (i div 2 ^ (nodeBits * Suc d)) mod nodeSize"
  have "\<exists>ys. slice_or_new (arr_get xs k) = Inr ys \<and> okn d (Arr ys)"
  proof (cases "arr_get xs k = Undef")
    case True
    then show ?thesis by simp
  next
    case False
    with okn_arr_get [OF Suc.prems, of k] have ok: "okn d (arr_get xs k)" by simp
    then obtain ys where "arr_get xs k = Arr ys" by (auto dest: okn_Arr)
    with ok show ?thesis by simp
  qed
  then obtain ys where
    sl: "slice_or_new (arr_get xs k) = Inr ys" and ok: "okn d (Arr ys)"
    by blast
  from Suc.IH [OF ok] obtain ys' where
    ys': "set_path ys (nodeBits * d) i x = Inr ys'" "okn d (Arr ys')"
      "get_loop (Arr ys') (nodeBits * d) i = Inr x"
    by auto
  have "set_path xs (nodeBits * Suc d) i x = Inr (arr_set Undef xs k (Arr ys'))"
    by (simp only: set_path_Suc k_def [symmetric] sl ys' bindE_simps)
  moreover have "okn (Suc d) (Arr (arr_set Undef xs k (Arr ys')))"
    using Suc.prems ys'(2) by (rule okn_arr_set)
  moreover have "get_loop (Arr (arr_set Undef xs k (Arr ys'))) (nodeBits * Suc d) i = Inr x"
    by (simp only: get_loop_Suc k_def [symmetric] js_idx.simps arr_get_arr_set_same bindE_simps ys')
  ultimately show ?case by blast
qed

lemma pow_nodeBits: "(2 :: nat) ^ (nodeBits * d) = nodeSize ^ d"
  by (simp add: nodeBits_def nodeSize_def power_mult)

lemma digits_differ:
  fixes i j :: nat
  assumes "j mod (2 ^ s * 32) \<noteq> i mod (2 ^ s * 32)"
    and "(j div 2 ^ s) mod 32 = (i div 2 ^ s) mod 32"
  shows "j mod 2 ^ s \<noteq> i mod 2 ^ s"
  using assms by (auto simp: mod_mult2_eq)

lemma set_path_frame:
  "get_loop (Arr xs) (nodeBits * d) j = Inr y \<Longrightarrow>
   set_path xs (nodeBits * d) i x = Inr xs' \<Longrightarrow>
   j mod nodeSize ^ Suc d \<noteq> i mod nodeSize ^ Suc d \<Longrightarrow>
   get_loop (Arr xs') (nodeBits * d) j = Inr y"
proof (induction d arbitrary: xs xs' y)
  case 0
  then show ?case
    by (auto simp: set_path_0 get_loop_0)
next
  case (Suc d)
  define ki where "ki = (i div 2 ^ (nodeBits * Suc d)) mod nodeSize"
  define kj where "kj = (j div 2 ^ (nodeBits * Suc d)) mod nodeSize"
  from Suc.prems(1) have g: "get_loop (arr_get xs kj) (nodeBits * d) j = Inr y"
    by (simp add: get_loop_add kj_def)
  from Suc.prems(2) obtain ys ys' where
    sl: "slice_or_new (arr_get xs ki) = Inr ys" and
    sp: "set_path ys (nodeBits * d) i x = Inr ys'" and
    xs': "xs' = arr_set Undef xs ki (Arr ys')"
    by (auto simp: set_path_add bindE_eq_Inr ki_def)
  show ?case
  proof (cases "kj = ki")
    case False
    then have "arr_get xs' kj = arr_get xs kj"
      by (simp add: xs')
    with g show ?thesis
      by (simp only: get_loop_Suc kj_def [symmetric] js_idx.simps bindE_simps)
  next
    case True
    from g obtain zs where "arr_get xs kj = Arr zs"
      by (auto dest: get_loop_Inr)
    with True sl have ys: "arr_get xs ki = Arr ys"
      by simp
    have pw: "(nodeSize :: nat) ^ Suc (Suc d) = 2 ^ (nodeBits * Suc d) * 32"
      "(2 :: nat) ^ (nodeBits * Suc d) = nodeSize ^ Suc d"
      by (simp_all only: pow_nodeBits) (simp add: nodeSize_def nodeBits_def)
    from Suc.prems(3) True have "j mod 2 ^ (nodeBits * Suc d) \<noteq> i mod 2 ^ (nodeBits * Suc d)"
      unfolding pw(1) kj_def ki_def by (intro digits_differ) (simp_all add: nodeSize_def nodeBits_def)
    then have ne: "j mod nodeSize ^ Suc d \<noteq> i mod nodeSize ^ Suc d"
      unfolding pw(2) .
    from g True ys have "get_loop (Arr ys) (nodeBits * d) j = Inr y"
      by simp
    moreover have "arr_get xs' kj = Arr ys'"
      by (simp add: xs' True)
    ultimately show ?thesis
      using Suc.IH [OF _ sp ne]
      by (simp only: get_loop_Suc kj_def [symmetric] js_idx.simps bindE_simps)
  qed
qed

lemma okn_chain: "okn d (chain d x)"
  by (induction d) simp_all

lemma chain_get:
  "(\<forall>e \<le> d. (j div 2 ^ (nodeBits * e)) mod nodeSize = 0) \<Longrightarrow>
   get_loop (chain d x) (nodeBits * d) j = Inr x"
proof (induction d)
  case 0
  then show ?case by (simp add: get_loop_0 arr_get_def)
next
  case (Suc d)
  then have "(j div 2 ^ (nodeBits * Suc d)) mod nodeSize = 0"
    and "\<forall>e \<le> d. (j div 2 ^ (nodeBits * e)) mod nodeSize = 0"
    by auto
  with Suc.IH show ?case
    by (simp add: get_loop_add arr_get_def)
qed

lemma holds_empty: "holds Vector_empty []"
  by (auto simp: holds_def Vector_empty_def)

lemma holds_get: "holds v xs \<Longrightarrow> j < length xs \<Longrightarrow> Vector_get v j = Inr (xs ! j)"
  by (auto simp: holds_def Vector_get_def)

lemma holds_get_beyond: "holds v xs \<Longrightarrow> \<not> j < length xs \<Longrightarrow> Vector_get v j = Inr Undef"
  by (auto simp: holds_def Vector_get_def)

lemma holds_length: "holds v xs \<Longrightarrow> vlength v = length xs"
  by (simp add: holds_def)


lemma capacity: "nodeSize * 2 ^ (nodeBits * d) = nodeSize ^ Suc d"
  by (simp add: pow_nodeBits)

lemma holds_set_at:
  assumes "holds v xs" and "i \<le> length xs"
  shows "\<exists>v'. set_at v i x = Inr v' \<and> holds v' (if i < length xs then xs[i := x] else xs @ [x])"
proof -
  let ?xs' = "if i < length xs then xs[i := x] else xs @ [x]"
  from assms(1) obtain d where
    len: "vlength v = length xs" and sh: "vshift v = nodeBits * d" and
    cap: "length xs \<le> nodeSize ^ Suc d" and ok: "okn d (vroot v)" and
    gets: "\<And>j. j < length xs \<Longrightarrow> get_loop (vroot v) (nodeBits * d) j = Inr (xs ! j)"
    by (auto simp: holds_def)
  from ok obtain r where r: "vroot v = Arr r"
    by (auto dest: okn_Arr)
  show ?thesis
  proof (cases "i < length xs \<or> length xs < nodeSize ^ Suc d")
    case True
    from set_path_okn [of d r i x] ok r obtain r' where
      sp: "set_path r (nodeBits * d) i x = Inr r'" and ok': "okn d (Arr r')" and
      gi: "get_loop (Arr r') (nodeBits * d) i = Inr x"
      by auto
    let ?v' = "\<lparr>vroot = Arr r', vshift = nodeBits * d,
                vlength = (if i < length xs then length xs else i + 1)\<rparr>"
    from True have "set_at v i x = Inr ?v'"
      by (simp add: set_at_def len sh capacity r sp)
    moreover have "holds ?v' ?xs'"
      unfolding holds_def
    proof (intro conjI exI [of _ d] allI impI)
      show "vlength ?v' = length ?xs'"
        using assms(2) by simp
      show "vshift ?v' = nodeBits * d" by simp
      show "length ?xs' \<le> nodeSize ^ Suc d"
        using True cap by auto
      show "okn d (vroot ?v')"
        using ok' by simp
    next
      fix j assume j: "j < length ?xs'"
      show "get_loop (vroot ?v') (nodeBits * d) j = Inr (?xs' ! j)"
      proof (cases "j = i")
        case True
        with gi assms(2) show ?thesis
          by (simp add: nth_append)
      next
        case False
        with j assms(2) have jl: "j < length xs"
          by (auto split: if_splits)
        from True assms(2) cap have "i < nodeSize ^ Suc d" by auto
        moreover from jl cap have "j < nodeSize ^ Suc d" by simp
        ultimately have ne: "j mod nodeSize ^ Suc d \<noteq> i mod nodeSize ^ Suc d"
          using False by simp
        from gets [OF jl] r have "get_loop (Arr r) (nodeBits * d) j = Inr (xs ! j)"
          by simp
        from set_path_frame [OF this sp ne] False jl show ?thesis
          by (simp add: nth_append)
      qed
    qed
    ultimately show ?thesis by blast
  next
    case False
    with assms(2) cap have i: "i = nodeSize ^ Suc d" and full: "length xs = nodeSize ^ Suc d"
      by auto
    let ?v' = "\<lparr>vroot = Arr [Arr r, chain d x], vshift = nodeBits * Suc d,
                vlength = length xs + 1\<rparr>"
    have cnt: "(nodeBits * d + nodeBits + 4) div nodeBits - Suc 0 = d"
      by (simp add: nodeBits_def)
    from False have "set_at v i x = Inr ?v'"
      by (simp add: set_at_def len sh capacity r Let_def cnt)
    moreover have "holds ?v' (xs @ [x])"
      unfolding holds_def
    proof (intro conjI exI [of _ "Suc d"] allI impI)
      show "vlength ?v' = length (xs @ [x])" by simp
      show "vshift ?v' = nodeBits * Suc d" by simp
      have "(1::nat) \<le> nodeSize ^ Suc d * 31"
        by (simp add: nodeSize_def)
      then show "length (xs @ [x]) \<le> nodeSize ^ Suc (Suc d)"
        by (simp add: full nodeSize_def nodeBits_def)
      show "okn (Suc d) (vroot ?v')"
        using ok r by (simp add: okn_chain)
    next
      fix j assume "j < length (xs @ [x])"
      then consider "j < length xs" | "j = length xs" by fastforce
      then show "get_loop (vroot ?v') (nodeBits * Suc d) j = Inr ((xs @ [x]) ! j)"
      proof cases
        case 1
        then have "j < 2 ^ (nodeBits * Suc d)"
          by (simp only: pow_nodeBits full)
        then have "(j div 2 ^ (nodeBits * Suc d)) mod nodeSize = 0"
          by simp
        with gets [OF 1] r 1 show ?thesis
          by (simp only: get_loop_Suc vector.simps js_idx.simps bindE_simps)
             (simp add: arr_get_def nth_append)
      next
        case 2
        then have j: "j = 2 ^ (nodeBits * Suc d)"
          by (simp only: pow_nodeBits full)
        then have top: "(j div 2 ^ (nodeBits * Suc d)) mod nodeSize = 1"
          by (simp add: nodeSize_def nodeBits_def)
        have "\<forall>e \<le> d. (j div 2 ^ (nodeBits * e)) mod nodeSize = 0"
        proof (intro allI impI)
          fix e assume e: "e \<le> d"
          then obtain m where m: "d = e + m"
            by (auto simp: le_iff_add)
          have "nodeBits * Suc d = nodeBits * e + nodeBits * Suc m"
            unfolding m by (simp add: algebra_simps)
          then have "j = 2 ^ (nodeBits * e) * (nodeSize * nodeSize ^ (d - e))"
            unfolding j by (simp only: power_add pow_nodeBits) (simp add: m)
          then have "j div 2 ^ (nodeBits * e) = nodeSize * nodeSize ^ (d - e)"
            by simp
          then show "(j div 2 ^ (nodeBits * e)) mod nodeSize = 0"
            by simp
        qed
        from chain_get [OF this] top 2 show ?thesis
          by (simp only: get_loop_Suc vector.simps js_idx.simps bindE_simps)
             (simp add: arr_get_def)
      qed
    qed
    ultimately show ?thesis
      using False by auto
  qed
qed

lemma holds_fill:
  "holds v xs \<Longrightarrow>
   \<exists>v'. fill_undefined [length xs ..< length xs + n] v = Inr v' \<and> holds v' (xs @ replicate n Undef)"
proof (induction n arbitrary: v xs)
  case 0
  then show ?case by simp
next
  case (Suc n)
  from holds_set_at [OF Suc.prems, of "length xs" Undef] obtain v1 where
    v1: "set_at v (length xs) Undef = Inr v1" "holds v1 (xs @ [Undef])"
    by auto
  from Suc.IH [OF v1(2)] obtain v' where
    v': "fill_undefined [Suc (length xs) ..< Suc (length xs) + n] v1 = Inr v'"
    "holds v' ((xs @ [Undef]) @ replicate n Undef)"
    by auto
  have up: "[length xs ..< length xs + Suc n] = length xs # [Suc (length xs) ..< Suc (length xs) + n]"
    by (simp del: upt_Suc add: upt_conv_Cons)
  have "fill_undefined [length xs ..< length xs + Suc n] v = Inr v'"
    by (simp only: up fill_undefined.simps v1(1) bindE_simps v'(1))
  moreover have "(xs @ [Undef]) @ replicate n Undef = xs @ replicate (Suc n) Undef"
    by simp
  ultimately show ?case
    using v'(2) by auto
qed

lemma holds_set:
  assumes "holds v xs"
  shows "\<exists>v'. Vector_set v i x = Inr v' \<and>
              holds v' (if i < length xs then xs[i := x]
                        else xs @ replicate (i - length xs) Undef @ [x])"
proof (cases "i > length xs")
  case False
  with holds_set_at [OF assms, of i x] assms show ?thesis
    by (auto simp: Vector_set_def holds_length)
next
  case True
  from holds_fill [OF assms, of "i - length xs"] True obtain v1 where
    v1: "fill_undefined [length xs ..< i] v = Inr v1"
      "holds v1 (xs @ replicate (i - length xs) Undef)"
    by auto
  from holds_set_at [OF v1(2), of i x] True obtain v' where
    "set_at v1 i x = Inr v'" "holds v' ((xs @ replicate (i - length xs) Undef) @ [x])"
    by auto
  with v1(1) True assms show ?thesis
    by (auto simp: Vector_set_def holds_length)
qed

lemma holds_append:
  "holds v xs \<Longrightarrow> \<exists>v'. Vector_append v x = Inr v' \<and> holds v' (xs @ [x])"
  using holds_set [of v xs "length xs" x] by (simp add: Vector_append_def holds_length)

lemma holds_update:
  "holds v xs \<Longrightarrow> i < length xs \<Longrightarrow> \<exists>v'. Vector_set v i x = Inr v' \<and> holds v' (xs[i := x])"
  using holds_set [of v xs i x] by simp

text \<open>
  The constructor of \<^verbatim>\<open>Vector\<close> is protected: a vector is \<^verbatim>\<open>Vector.empty\<close> or the
  result of a method. \<open>sets\<close> is a sequence of calls of \<^verbatim>\<open>set\<close>; \<^verbatim>\<open>append\<close> is
  \<^verbatim>\<open>set\<close> at the length, and \<^verbatim>\<open>filter\<close> a sequence of calls of \<^verbatim>\<open>append\<close>.
\<close>

fun sets :: "(nat \<times> 'a jsv) list \<Rightarrow> 'a vector \<Rightarrow> error + 'a vector" where
  "sets [] v = Inr v"
| "sets ((i, x) # ops) v = bindE (Vector_set v i x) (sets ops)"

lemma sets_holds: "holds v xs \<Longrightarrow> \<exists>v' xs'. sets ops v = Inr v' \<and> holds v' xs'"
proof (induction ops arbitrary: v xs)
  case Nil
  then show ?case by auto
next
  case (Cons op ops)
  obtain i x where op: "op = (i, x)"
    by (cases op)
  from holds_set [OF Cons.prems, of i x] obtain v1 xs1 where
    "Vector_set v i x = Inr v1" "holds v1 xs1"
    by blast
  with Cons.IH [of v1 xs1] show ?case
    by (simp add: op)
qed

text \<open>
  On the vectors that \<^verbatim>\<open>set\<close> and \<^verbatim>\<open>append\<close> alone build, \<^verbatim>\<open>get\<close> reads what \<^verbatim>\<open>set\<close>
  wrote: every sequence of calls of \<^verbatim>\<open>set\<close> and \<^verbatim>\<open>append\<close> on the empty vector returns
  a vector \<open>v\<close>, and for every index \<open>i\<close> below its length and every \<open>x\<close>,
  \<^verbatim>\<open>v.set(i, x)\<close> returns a vector of the same length in which \<^verbatim>\<open>get(i)\<close> is \<open>x\<close>.
  The vectors that \<^verbatim>\<open>pop\<close> returns are not all of this kind (last subsection of this
  section).
\<close>

lemma Vector_set_get:
  "\<exists>v. sets ops Vector_empty = Inr v \<and>
     (\<forall>i x. i < vlength v \<longrightarrow>
        (\<exists>v'. Vector_set v i x = Inr v' \<and> Vector_get v' i = Inr x \<and> vlength v' = vlength v))"
proof -
  from sets_holds [OF holds_empty, of ops] obtain v xs where
    v: "sets ops Vector_empty = Inr v" and h: "holds v xs"
    by blast
  have "\<exists>v'. Vector_set v i x = Inr v' \<and> Vector_get v' i = Inr x \<and> vlength v' = vlength v"
    if "i < vlength v" for i x
  proof -
    from that holds_length [OF h] have i: "i < length xs"
      by simp
    from holds_update [OF h i, of x] obtain v' where
      s: "Vector_set v i x = Inr v'" and h': "holds v' (xs[i := x])"
      by blast
    from holds_get [OF h', of i] i have "Vector_get v' i = Inr x"
      by simp
    moreover from holds_length [OF h'] holds_length [OF h] have "vlength v' = vlength v"
      by simp
    ultimately show ?thesis
      using s by blast
  qed
  with v show ?thesis
    by blast
qed


subsection \<open>Vectors built with \<open>pop\<close>\<close>

text \<open>A sequence of calls of \<^verbatim>\<open>append\<close>, and \<open>n\<close> calls of \<^verbatim>\<open>pop\<close>.\<close>

fun appends :: "'a jsv list \<Rightarrow> 'a vector \<Rightarrow> error + 'a vector" where
  "appends [] v = Inr v"
| "appends (x # xs) v = bindE (Vector_append v x) (appends xs)"

fun pops :: "nat \<Rightarrow> 'a vector \<Rightarrow> error + 'a vector" where
  "pops 0 v = Inr v"
| "pops (Suc n) v = bindE (Vector_pop v) (pops n)"

lemma pops_add: "pops (m + n) v = bindE (pops m v) (pops n)"
proof (induction m arbitrary: v)
  case 0
  show ?case by simp
next
  case (Suc m)
  show ?case
    by (cases "Vector_pop v") (simp_all add: Suc)
qed

text \<open>A vector gets a new level only when it is full: above the leaves, its length is
  more than what one level less can hold.\<close>

definition tight :: "'a vector \<Rightarrow> bool" where
  "tight v \<longleftrightarrow>
     vshift v = 0 \<or> nodeBits \<le> vshift v \<and> nodeSize * 2 ^ (vshift v - nodeBits) < vlength v"

lemma set_at_tight:
  assumes "tight v" and "i \<le> vlength v" and "set_at v i x = Inr v'"
  shows "tight v'"
proof (cases "i < vlength v \<or> vlength v < nodeSize * 2 ^ vshift v")
  case True
  with assms(3) obtain r' where
    "v' = \<lparr>vroot = Arr r', vshift = vshift v,
           vlength = (if i < vlength v then vlength v else i + 1)\<rparr>"
    by (auto simp: set_at_def bindE_eq_Inr)
  then have sh: "vshift v' = vshift v" and le: "vlength v \<le> vlength v'"
    by simp_all
  from assms(1) have "vshift v = 0 \<or>
      nodeBits \<le> vshift v \<and> nodeSize * 2 ^ (vshift v - nodeBits) < vlength v"
    by (simp only: tight_def)
  then have "vshift v = 0 \<or>
      nodeBits \<le> vshift v \<and> nodeSize * 2 ^ (vshift v - nodeBits) < vlength v'"
    using le by (blast intro: less_le_trans)
  then show ?thesis
    by (simp only: tight_def sh)
next
  case False
  with assms(3) obtain r where
    "v' = \<lparr>vroot = Arr [Arr r, chain ((vshift v + nodeBits + 4) div nodeBits - 1) x],
           vshift = vshift v + nodeBits, vlength = vlength v + 1\<rparr>"
    by (auto simp: set_at_def bindE_eq_Inr Let_def)
  then have sh: "vshift v' = vshift v + nodeBits" and l: "vlength v' = vlength v + 1"
    by simp_all
  from False have "nodeSize * 2 ^ vshift v \<le> vlength v"
    by simp
  then have "nodeSize * 2 ^ (vshift v' - nodeBits) < vlength v'"
    by (simp only: sh l add_diff_cancel_right')
  then show ?thesis
    by (simp add: tight_def sh)
qed

lemma append_set_at: "Vector_append v x = set_at v (vlength v) x"
  by (simp add: Vector_append_def Vector_set_def)

lemma appends_holds:
  "holds v ys \<Longrightarrow> tight v \<Longrightarrow>
   \<exists>v'. appends xs v = Inr v' \<and> holds v' (ys @ xs) \<and> tight v'"
proof (induction xs arbitrary: v ys)
  case Nil
  then show ?case by simp
next
  case (Cons x xs)
  from holds_append [OF Cons.prems(1), of x] obtain v1 where
    a: "Vector_append v x = Inr v1" and h: "holds v1 (ys @ [x])"
    by blast
  from a have "set_at v (vlength v) x = Inr v1"
    by (simp add: append_set_at)
  with Cons.prems(2) le_refl have "tight v1"
    by (rule set_at_tight)
  from Cons.IH [OF h this] a show ?case
    by simp
qed

text \<open>The vectors on which \<^verbatim>\<open>pop\<close> goes on after its first wrong result: the shift is
  that of one level above the leaves, and the root holds arrays and holes.\<close>

definition kids :: "'a vector \<Rightarrow> 'a jsv list" where
  "kids v = (case vroot v of Arr r \<Rightarrow> r | _ \<Rightarrow> [])"

definition flat :: "'a vector \<Rightarrow> bool" where
  "flat v \<longleftrightarrow>
     vshift v = nodeBits \<and> vroot v = Arr (kids v) \<and>
     (\<forall>c \<in> set (kids v). c = Undef \<or> (\<exists>ys. c = Arr ys))"

lemma flat_arr_set:
  assumes "\<forall>c \<in> set r. c = Undef \<or> (\<exists>ys. c = Arr ys)" and "x = Undef \<or> (\<exists>ys. x = Arr ys)"
  shows "\<forall>c \<in> set (arr_set Undef r k x). c = Undef \<or> (\<exists>ys. c = Arr ys)"
  using assms set_arr_set [of Undef r k x] by blast

lemma pop_first:
  assumes sh: "vshift v = 2 * nodeBits" and len: "vlength v = 1057"
    and ok: "okn 2 (vroot v)" and g: "get_loop (vroot v) (2 * nodeBits) 1056 = Inr y"
  shows "\<exists>v'. Vector_pop v = Inr v' \<and> flat v' \<and> vlength v' = 1056"
proof -
  from ok obtain r where r: "vroot v = Arr r"
    by (auto dest: okn_Arr)
  from ok r have kids: "\<forall>c \<in> set r. c = Undef \<or> (\<exists>ys. c = Arr ys)"
    by (auto simp: numeral_2_eq_2 dest: okn_Arr)
  have k1: "(1056 div 2 ^ (2 * nodeBits)) mod nodeSize = (1 :: nat)"
    by (simp add: nodeBits_def nodeSize_def)
  from g have "bindE (js_idx (Arr r) 1) (\<lambda>n. get_loop n nodeBits 1056) = Inr y"
    by (simp add: r get_loop_step [of "2 * nodeBits"] k1)
  then have "get_loop (arr_get r 1) nodeBits 1056 = Inr y"
    by simp
  then obtain ys where ys: "arr_get r 1 = Arr ys"
    by (auto dest: get_loop_Inr)
  have p5: "pop_path ys nodeBits 1056 = Inr (arr_set Undef ys 1 Undef, nodeBits)"
    by (subst pop_path.simps) (simp add: nodeBits_def nodeSize_def)
  have nb: "nodeBits < 2 * nodeBits" "2 * nodeBits - nodeBits = nodeBits"
    by (simp_all add: nodeBits_def)
  have p10: "pop_path r (2 * nodeBits) 1056 =
      Inr (arr_set Undef r 1 (Arr (arr_set Undef ys 1 Undef)), nodeBits)"
    by (subst pop_path.simps)
      (simp only: nb k1 if_True Let_def js_idx.simps ys js_slice.simps bindE_simps p5 prod.case)
  have "Vector_pop v =
      Inr \<lparr>vroot = Arr (arr_set Undef r 1 (Arr (arr_set Undef ys 1 Undef))),
           vshift = nodeBits, vlength = 1056\<rparr>"
    by (simp add: Vector_pop_def len sh r p10) (simp add: nodeBits_def nodeSize_def)
  moreover have "flat \<lparr>vroot = Arr (arr_set Undef r 1 (Arr (arr_set Undef ys 1 Undef))),
           vshift = nodeBits, vlength = 1056\<rparr>"
    using flat_arr_set [OF kids, of "Arr (arr_set Undef ys 1 Undef)" 1]
    by (simp add: flat_def kids_def)
  ultimately show ?thesis
    by simp
qed

lemma pop_step:
  assumes fl: "flat v" and len: "34 \<le> vlength v"
  shows "\<exists>v'. Vector_pop v = Inr v' \<and> flat v' \<and> vlength v' = vlength v - 1 \<and>
           (\<forall>k. k \<noteq> ((vlength v - 1) div nodeSize) mod nodeSize \<longrightarrow>
                arr_get (kids v') k = arr_get (kids v) k) \<and>
           (vlength v mod nodeSize = 1 \<longrightarrow>
              arr_get (kids v') (((vlength v - 1) div nodeSize) mod nodeSize) = Undef)"
proof -
  define i where "i = vlength v - 1"
  define k where "k = (i div nodeSize) mod nodeSize"
  define m where "m = i mod nodeSize"
  from fl have sh: "vshift v = nodeBits" and r: "vroot v = Arr (kids v)"
    and ks: "\<forall>c \<in> set (kids v). c = Undef \<or> (\<exists>ys. c = Arr ys)"
    by (simp_all add: flat_def)
  have pw: "(2 :: nat) ^ nodeBits = nodeSize"
    by (simp add: nodeSize_def)
  have nb: "0 < nodeBits" "nodeBits - nodeBits = 0" "\<not> nodeBits < nodeBits"
    by (simp_all add: nodeBits_def)
  from len have il: "i < vlength v"
    by (simp add: i_def)
  have goal: "\<exists>v'. Vector_pop v = Inr v' \<and> flat v' \<and> vlength v' = i \<and>
           (\<forall>j. j \<noteq> k \<longrightarrow> arr_get (kids v') j = arr_get (kids v) j) \<and>
           (vlength v mod nodeSize = 1 \<longrightarrow> arr_get (kids v') k = Undef)"
  proof (cases "vlength v mod nodeSize = 1")
    case False
    have "arr_get (kids v) k = Undef \<or> (\<exists>ys. arr_get (kids v) k = Arr ys)"
      using ks by (auto simp: arr_get_def)
    then obtain ys where ys: "slice_or_new (arr_get (kids v) k) = Inr ys"
      by auto
    define c where "c = Arr (arr_set Undef ys m Undef)"
    have sp: "set_path (kids v) nodeBits i Undef = Inr (arr_set Undef (kids v) k c)"
      by (subst set_path_step [OF nb(1)])
        (simp only: pw k_def [symmetric] ys bindE_simps nb set_path_0 m_def [symmetric]
           c_def [symmetric])
    define v' where "v' = \<lparr>vroot = Arr (arr_set Undef (kids v) k c), vshift = nodeBits, vlength = i\<rparr>"
    have "Vector_set v i Undef =
        Inr \<lparr>vroot = Arr (arr_set Undef (kids v) k c), vshift = nodeBits, vlength = vlength v\<rparr>"
      using il by (simp add: Vector_set_def set_at_def r sh sp)
    then have vs: "Vector_set v i Undef = Inr (v' \<lparr>vlength := vlength v\<rparr>)"
      by (simp add: v'_def)
    from False len have "Vector_pop v = bindE (Vector_set v i Undef) (\<lambda>vector.
          Inr \<lparr>vroot = vroot vector, vshift = vshift vector, vlength = vlength vector - 1\<rparr>)"
      by (simp add: Vector_pop_def i_def)
    also have "\<dots> = Inr v'"
      by (simp only: vs bindE_simps) (simp add: v'_def i_def)
    finally have "Vector_pop v = Inr v'" .
    moreover have "flat v'"
      using flat_arr_set [OF ks, of c k]
      by (simp add: flat_def kids_def v'_def c_def)
    moreover have "\<forall>j. j \<noteq> k \<longrightarrow> arr_get (kids v') j = arr_get (kids v) j"
      by (simp add: kids_def v'_def)
    moreover have "vlength v' = i"
      by (simp add: v'_def)
    ultimately show ?thesis
      using False by blast
  next
    case True
    have pp: "pop_path (kids v) nodeBits i = Inr (arr_set Undef (kids v) k Undef, nodeBits)"
      by (subst pop_path.simps) (simp only: nb if_False pw k_def [symmetric])
    define v' where "v' = \<lparr>vroot = Arr (arr_set Undef (kids v) k Undef), vshift = nodeBits, vlength = i\<rparr>"
    from len have "i \<noteq> nodeSize"
      by (simp add: nodeSize_def nodeBits_def i_def)
    then have ne: "vlength v - 1 \<noteq> nodeSize * 2 ^ (nodeBits - nodeBits)"
      by (simp add: i_def)
    from True len have "Vector_pop v =
        bindE (pop_path (kids v) nodeBits i) (\<lambda>(r', shift').
          Inr \<lparr>vroot = Arr r', vshift = shift', vlength = i\<rparr>)"
      using ne by (simp add: Vector_pop_def sh r i_def)
    also have "\<dots> = Inr v'"
      by (simp only: pp bindE_simps prod.case v'_def)
    finally have "Vector_pop v = Inr v'" .
    moreover have "flat v'"
      using flat_arr_set [OF ks, of Undef k] by (simp add: flat_def kids_def v'_def)
    moreover have "\<forall>j. j \<noteq> k \<longrightarrow> arr_get (kids v') j = arr_get (kids v) j"
      by (simp add: kids_def v'_def)
    moreover have "arr_get (kids v') k = Undef"
      by (simp add: kids_def v'_def)
    moreover have "vlength v' = i"
      by (simp add: v'_def)
    ultimately show ?thesis
      by blast
  qed
  then show ?thesis
    unfolding k_def i_def .
qed

lemma pop_last:
  assumes "flat v" and "vlength v = 33"
  shows "Vector_pop v = Inr \<lparr>vroot = arr_get (kids v) 0, vshift = 0, vlength = 32\<rparr>"
proof -
  from assms(1) have sh: "vshift v = nodeBits" and r: "vroot v = Arr (kids v)"
    by (simp_all add: flat_def)
  show ?thesis
    by (simp add: Vector_pop_def assms(2) sh r) (simp add: nodeSize_def nodeBits_def)
qed

lemma pops_high:
  "flat v \<Longrightarrow> vlength v = 1025 + n \<Longrightarrow> n \<le> 31 \<Longrightarrow>
   \<exists>v'. pops (Suc n) v = Inr v' \<and> flat v' \<and> arr_get (kids v') 0 = Undef \<and> vlength v' = 1024"
proof (induction n arbitrary: v)
  case 0
  from 0 have len: "34 \<le> vlength v" by simp
  have k: "((vlength v - 1) div nodeSize) mod nodeSize = 0" "vlength v mod nodeSize = 1"
    using 0(2) by (simp_all add: nodeSize_def nodeBits_def)
  from pop_step [OF "0.prems"(1) len] k "0.prems"(2) show ?case
    by auto
next
  case (Suc n)
  from Suc.prems have len: "34 \<le> vlength v" by simp
  from pop_step [OF Suc.prems(1) len] obtain v1 where
    v1: "Vector_pop v = Inr v1" "flat v1" "vlength v1 = vlength v - 1"
    by blast
  from v1(3) Suc.prems have "vlength v1 = 1025 + n" "n \<le> 31"
    by simp_all
  from Suc.IH [OF v1(2) this] v1(1) show ?case
    by simp
qed

lemma pops_low:
  "flat v \<Longrightarrow> arr_get (kids v) 0 = Undef \<Longrightarrow> vlength v = 33 + n \<Longrightarrow> n \<le> 991 \<Longrightarrow>
   pops (Suc n) v = Inr \<lparr>vroot = Undef, vshift = 0, vlength = 32\<rparr>"
proof (induction n arbitrary: v)
  case 0
  then show ?case
    by (simp add: pop_last)
next
  case (Suc n)
  from Suc.prems have len: "34 \<le> vlength v" by simp
  from Suc.prems have "1 \<le> (vlength v - 1) div 32" "(vlength v - 1) div 32 < 32"
    by simp_all
  then have k: "((vlength v - 1) div nodeSize) mod nodeSize \<noteq> 0"
    by (simp add: nodeSize_def nodeBits_def)
  from pop_step [OF Suc.prems(1) len] obtain v1 where
    v1: "Vector_pop v = Inr v1" "flat v1" "vlength v1 = vlength v - 1"
    and same: "\<forall>k. k \<noteq> ((vlength v - 1) div nodeSize) mod nodeSize \<longrightarrow>
                arr_get (kids v1) k = arr_get (kids v) k"
    by blast
  from same k Suc.prems(2) have z: "arr_get (kids v1) 0 = Undef"
    by metis
  from v1(3) Suc.prems have "vlength v1 = 33 + n" "n \<le> 991"
    by simp_all
  from Suc.IH [OF v1(2) z this] v1(1) show ?case
    by simp
qed

text \<open>
  Claim C7. The vector that 1057 calls of \<^verbatim>\<open>append\<close> build from the empty vector has two
  levels above the leaves. The first of 1025 calls of \<^verbatim>\<open>pop\<close> returns it with the shift
  of one level, the local variable of the loop of \<^verbatim>\<open>pop\<close>; the last returns a vector of
  length 32 whose root is \<^verbatim>\<open>undefined\<close>. On this vector \<^verbatim>\<open>set(0, y)\<close> and \<^verbatim>\<open>get(0)\<close> end
  with a \<open>TypeError\<close>.
\<close>

theorem pop_breaks_set_get:
  "bindE (appends (replicate 1057 x) Vector_empty) (pops 1025)
     = Inr \<lparr>vroot = Undef, vshift = 0, vlength = 32\<rparr> \<and>
   Vector_set \<lparr>vroot = Undef, vshift = 0, vlength = 32\<rparr> 0 y = Inl TypeError \<and>
   Vector_get \<lparr>vroot = Undef, vshift = 0, vlength = 32\<rparr> 0 = Inl TypeError"
proof (intro conjI)
  define xs where "xs = replicate 1057 x"
  have lx: "length xs = 1057"
    unfolding xs_def by (rule length_replicate)
  have nx: "xs ! 1056 = x"
    unfolding xs_def by (rule nth_replicate) simp
  have t0: "tight (Vector_empty :: 'a vector)"
    by (simp add: tight_def Vector_empty_def)
  from appends_holds [OF holds_empty t0, of xs] obtain v where
    v: "appends xs Vector_empty = Inr v" and h: "holds v ([] @ xs)" and t: "tight v"
    by blast
  from h have len: "vlength v = 1057"
    by (simp add: holds_def lx)
  from h obtain d where sh: "vshift v = nodeBits * d"
    and cap: "length ([] @ xs) \<le> nodeSize ^ Suc d" and ok: "okn d (vroot v)"
    and gs: "\<forall>j < length ([] @ xs). get_loop (vroot v) (nodeBits * d) j = Inr (([] @ xs) ! j)"
    unfolding holds_def by blast
  from gs have "(1056 :: nat) < length ([] @ xs) \<longrightarrow>
      get_loop (vroot v) (nodeBits * d) 1056 = Inr (([] @ xs) ! 1056)"
    by (rule spec)
  then have g: "get_loop (vroot v) (nodeBits * d) 1056 = Inr x"
    by (simp add: lx nx)
  from cap have cap': "1057 \<le> (32 :: nat) ^ Suc d"
    by (simp add: lx nodeSize_def nodeBits_def)
  have d: "d = 2"
  proof -
    have d0: "d \<noteq> 0"
    proof
      assume "d = 0"
      with cap' show False
        by simp
    qed
    have d1: "d \<noteq> 1"
    proof
      assume "d = 1"
      with cap' show False
        by simp
    qed
    have "d < 3"
    proof (rule ccontr)
      assume "\<not> d < 3"
      then have "3 \<le> d" by simp
      then have "(32 :: nat) ^ 3 \<le> 32 ^ d"
        by (intro power_increasing) simp_all
      moreover from d0 obtain e where e: "d = Suc e"
        by (cases d) simp_all
      from t sh len d0 have "nodeSize * 2 ^ (nodeBits * d - nodeBits) < 1057"
        by (auto simp: tight_def nodeBits_def)
      then have "nodeSize * 2 ^ (nodeBits * e) < 1057"
        by (simp add: e)
      then have "nodeSize * nodeSize ^ e < 1057"
        by (simp only: pow_nodeBits)
      then have "(32 :: nat) ^ d < 1057"
        by (simp add: e nodeSize_def nodeBits_def)
      ultimately show False
        by simp
    qed
    with d0 d1 show ?thesis
      by presburger
  qed
  from sh d have sh2: "vshift v = 2 * nodeBits"
    by simp
  from ok d have ok2: "okn 2 (vroot v)"
    by simp
  from g d have g2: "get_loop (vroot v) (2 * nodeBits) 1056 = Inr x"
    by (simp add: mult.commute)
  from pop_first [OF sh2 len ok2 g2] obtain v1 where
    v1: "Vector_pop v = Inr v1" "flat v1" "vlength v1 = 1056"
    by blast
  from v1(3) have "vlength v1 = 1025 + 31"
    by simp
  from pops_high [OF v1(2) this] obtain v2 where
    v2: "pops (Suc 31) v1 = Inr v2" "flat v2" "arr_get (kids v2) 0 = Undef" "vlength v2 = 1024"
    by blast
  from v2(4) have "vlength v2 = 33 + 991"
    by simp
  from pops_low [OF v2(2,3) this] have
    v3: "pops (Suc 991) v2 = Inr \<lparr>vroot = Undef, vshift = 0, vlength = 32\<rparr>"
    by simp
  have "(1025 :: nat) = Suc 0 + (Suc 31 + Suc 991)"
    by simp
  then have "pops 1025 v = pops (Suc 0 + (Suc 31 + Suc 991)) v"
    by (rule arg_cong)
  also have "\<dots> = Inr \<lparr>vroot = Undef, vshift = 0, vlength = 32\<rparr>"
    by (simp only: pops_add pops.simps(1) pops.simps(2) [of 0] v1 v2 v3 bindE_simps)
  finally have "bindE (appends xs Vector_empty) (pops 1025)
      = Inr \<lparr>vroot = Undef, vshift = 0, vlength = 32\<rparr>"
    by (simp only: v bindE_simps)
  then show "bindE (appends (replicate 1057 x) Vector_empty) (pops 1025)
      = Inr \<lparr>vroot = Undef, vshift = 0, vlength = 32\<rparr>"
    unfolding xs_def .
  show "Vector_set \<lparr>vroot = Undef, vshift = 0, vlength = 32\<rparr> 0 y = Inl TypeError"
    by (simp add: Vector_set_def set_at_def)
  show "Vector_get \<lparr>vroot = Undef, vshift = 0, vlength = 32\<rparr> 0 = Inl TypeError"
    by (simp add: Vector_get_def get_loop_0)
qed

section \<open>Chron (immutable.ts)\<close>

text \<open>
  The atom of an entry is a value of the element type or the token
  \<^verbatim>\<open>ChronEntry.deleted\<close>. \<open>former\<close> and \<open>latter\<close> are indices or \<^verbatim>\<open>undefined\<close>. The
  anchor of a cursor is an entry or a bare key.
\<close>

datatype 'a atom = Deleted | Data 'a

record 'a entry =
  index :: nat
  key :: nat
  atom :: "'a atom"
  former :: "nat option"
  latter :: "nat option"

datatype 'a anchor = AEntry "'a entry" | AKey nat

record 'a cursor =
  anchor :: "'a anchor"
  offset :: int

record 'a range =
  head :: "'a cursor"
  tail :: "'a cursor"

record 'a chron =
  chron_log :: "'a entry vector"
  chron_last :: nat

definition entry_head :: "'a entry \<Rightarrow> 'a cursor" where
  "entry_head e = \<lparr>anchor = AEntry e, offset = - 1\<rparr>"

definition entry_tail :: "'a entry \<Rightarrow> 'a cursor" where
  "entry_tail e = \<lparr>anchor = AEntry e, offset = 1\<rparr>"

definition deleted :: "'a entry \<Rightarrow> bool" where
  "deleted e \<longleftrightarrow> atom e = Deleted"

text \<open>\<^verbatim>\<open>ChronEntry.isSame\<close>: the same object, or the key for a number, or key and index.\<close>

fun entry_isSame :: "'a entry \<Rightarrow> 'a anchor \<Rightarrow> bool" where
  "entry_isSame e (AKey k) = (key e = k)"
| "entry_isSame e (AEntry e') = (key e' = key e \<and> index e' = index e)"

definition cursor_isSame :: "'a cursor \<Rightarrow> 'a cursor \<Rightarrow> bool" where
  "cursor_isSame c c' =
     (if offset c' \<noteq> offset c then False
      else (case anchor c of
              AKey k \<Rightarrow> (case anchor c' of AKey k' \<Rightarrow> k' = k | AEntry e' \<Rightarrow> entry_isSame e' (AKey k))
            | AEntry e \<Rightarrow> entry_isSame e (anchor c')))"

definition collapsed :: "'a range \<Rightarrow> bool" where
  "collapsed r = cursor_isSame (head r) (tail r)"

text \<open>
  \<^verbatim>\<open>this.log.get(i)\<close> as the code uses its result: an entry, or \<^verbatim>\<open>undefined\<close>. The index
  may itself be \<^verbatim>\<open>undefined\<close> (a missing \<open>former\<close> or \<open>latter\<close>), for which \<^verbatim>\<open>get\<close>
  returns \<^verbatim>\<open>undefined\<close>. The log holds entries only; the model stops with \<open>TypeError\<close>
  at an array in the place of an entry.
\<close>

definition log_get :: "'a chron \<Rightarrow> nat option \<Rightarrow> error + 'a entry option" where
  "log_get c i =
     (case i of
        None \<Rightarrow> Inr None
      | Some n \<Rightarrow> bindE (Vector_get (chron_log c) n) (\<lambda>r.
          case r of Atom e \<Rightarrow> Inr (Some e) | Undef \<Rightarrow> Inr None | Arr xs \<Rightarrow> Inl TypeError))"

text \<open>
  The loop of \<^verbatim>\<open>range\<close>: from \<open>cur\<close> along \<open>latter\<close> until \<^verbatim>\<open>undefined\<close> or \<open>stop\<close>.
  Two entries read from the log are the same object when they are read from the same
  place. A walk of more steps than the log has entries is on a cycle and never ends.
\<close>

fun walk :: "nat \<Rightarrow> 'a chron \<Rightarrow> 'a entry option \<Rightarrow> 'a entry option \<Rightarrow> error + 'a entry list" where
  "walk 0 c cur stop = Inl Diverges"
| "walk (Suc n) c None stop = Inr []"
| "walk (Suc n) c (Some e) stop =
     (if Some e = stop then Inr []
      else bindE (log_get c (latter e)) (\<lambda>nxt.
           bindE (walk n c nxt stop) (\<lambda>es. Inr (e # es))))"

definition walk_fuel :: "'a chron \<Rightarrow> nat" where
  "walk_fuel c = Suc (vlength (chron_log c))"

text \<open>
  \<^verbatim>\<open>anchorOf\<close>, \<^verbatim>\<open>nextTo\<close>, \<^verbatim>\<open>range\<close> and \<^verbatim>\<open>find\<close> call each other: a bare key is
  resolved by a search through the range of the whole chron, whose two cursors are
  anchored at entries. The functions take the resolver of bare keys as a parameter
  \<open>byKey\<close>; the search runs them with a resolver that is never called.
\<close>

definition anchorOf_gen ::
  "(nat \<Rightarrow> error + 'a entry option) \<Rightarrow> 'a chron \<Rightarrow> 'a cursor \<Rightarrow> error + 'a entry option" where
  "anchorOf_gen byKey c cur =
     (case anchor cur of
        AKey k \<Rightarrow> byKey k
      | AEntry a \<Rightarrow> bindE (log_get c (Some (index a))) (\<lambda>r.
          case r of
            None \<Rightarrow> Inr None
          | Some e \<Rightarrow> Inr (if entry_isSame e (AEntry a) then Some e else None)))"

definition nextTo_gen ::
  "(nat \<Rightarrow> error + 'a entry option) \<Rightarrow> 'a chron \<Rightarrow> 'a cursor \<Rightarrow> error + 'a entry option" where
  "nextTo_gen byKey c cur =
     bindE (anchorOf_gen byKey c cur) (\<lambda>r.
       case r of
         None \<Rightarrow> Inr None
       | Some e \<Rightarrow> if offset cur < 0 then Inr (Some e) else log_get c (latter e))"

definition range_gen ::
  "(nat \<Rightarrow> error + 'a entry option) \<Rightarrow> 'a chron \<Rightarrow> 'a range \<Rightarrow> error + 'a entry list" where
  "range_gen byKey c r =
     bindE (nextTo_gen byKey c (head r)) (\<lambda>h.
     bindE (nextTo_gen byKey c (tail r)) (\<lambda>t. walk (walk_fuel c) c h t))"

text \<open>The chron as a range: \<^verbatim>\<open>head\<close> is \<^verbatim>\<open>log.get(0).tail\<close>, \<^verbatim>\<open>tail\<close> is
  \<^verbatim>\<open>log.get(last).tail\<close>.\<close>

definition Chron_head :: "'a chron \<Rightarrow> error + 'a cursor" where
  "Chron_head c = bindE (log_get c (Some 0)) (\<lambda>r.
     case r of None \<Rightarrow> Inl TypeError | Some e \<Rightarrow> Inr (entry_tail e))"

definition Chron_tail :: "'a chron \<Rightarrow> error + 'a cursor" where
  "Chron_tail c = bindE (log_get c (Some (chron_last c))) (\<lambda>r.
     case r of None \<Rightarrow> Inl TypeError | Some e \<Rightarrow> Inr (entry_tail e))"

definition Chron_as_range :: "'a chron \<Rightarrow> error + 'a range" where
  "Chron_as_range c =
     bindE (Chron_head c) (\<lambda>h. bindE (Chron_tail c) (\<lambda>t. Inr \<lparr>head = h, tail = t\<rparr>))"

definition unused_byKey :: "nat \<Rightarrow> error + 'a entry option" where
  "unused_byKey k = Inl Diverges"

text \<open>\<^verbatim>\<open>find(test)\<close> over the whole chron: the first entry that passes.\<close>

definition Chron_find :: "'a chron \<Rightarrow> ('a entry \<Rightarrow> bool) \<Rightarrow> error + 'a entry option" where
  "Chron_find c test =
     bindE (Chron_as_range c) (\<lambda>r.
     bindE (range_gen unused_byKey c r) (\<lambda>es. Inr (List.find test es)))"

definition Chron_anchorOf :: "'a chron \<Rightarrow> 'a cursor \<Rightarrow> error + 'a entry option" where
  "Chron_anchorOf c = anchorOf_gen (\<lambda>k. Chron_find c (\<lambda>e. key e = k)) c"

definition Chron_nextTo :: "'a chron \<Rightarrow> 'a cursor \<Rightarrow> error + 'a entry option" where
  "Chron_nextTo c = nextTo_gen (\<lambda>k. Chron_find c (\<lambda>e. key e = k)) c"

definition Chron_range :: "'a chron \<Rightarrow> 'a range \<Rightarrow> error + 'a entry list" where
  "Chron_range c = range_gen (\<lambda>k. Chron_find c (\<lambda>e. key e = k)) c"

text \<open>The iterator of the chron, \<^verbatim>\<open>range(this)\<close>, and \<^verbatim>\<open>data\<close>.\<close>

definition Chron_entries :: "'a chron \<Rightarrow> error + 'a entry list" where
  "Chron_entries c = bindE (Chron_as_range c) (Chron_range c)"

fun live :: "'a entry list \<Rightarrow> 'a list" where
  "live [] = []"
| "live (e # es) = (case atom e of Deleted \<Rightarrow> live es | Data x \<Rightarrow> x # live es)"

definition Chron_data :: "'a chron \<Rightarrow> 'a range option \<Rightarrow> error + 'a list" where
  "Chron_data c r =
     bindE (case r of Some r' \<Rightarrow> Chron_range c r' | None \<Rightarrow> Chron_entries c)
       (\<lambda>es. Inr (live es))"

text \<open>The loop of \<^verbatim>\<open>prevTo\<close>: \<^verbatim>\<open>while (_ && _.latter != index) _ = log.get(_.latter)\<close>.\<close>

fun prev_loop :: "nat \<Rightarrow> 'a chron \<Rightarrow> 'a entry option \<Rightarrow> nat \<Rightarrow> error + 'a entry option" where
  "prev_loop 0 c cur i = Inl Diverges"
| "prev_loop (Suc n) c None i = Inr None"
| "prev_loop (Suc n) c (Some e) i =
     (if latter e \<noteq> Some i then bindE (log_get c (latter e)) (\<lambda>nxt. prev_loop n c nxt i)
      else Inr (Some e))"

definition Chron_prevTo :: "'a chron \<Rightarrow> 'a cursor \<Rightarrow> error + 'a entry option" where
  "Chron_prevTo c cur =
     bindE (Chron_anchorOf c cur) (\<lambda>r.
       case r of
         None \<Rightarrow> Inr None
       | Some e \<Rightarrow>
           if offset cur > 0 then Inr (Some e)
           else bindE (log_get c (former e)) (\<lambda>f. prev_loop (walk_fuel c) c f (index e)))"

text \<open>\<^verbatim>\<open>insert\<close>; the key is given. \<^verbatim>\<open>_.latter ? this.last : index\<close> takes the index
  0 for false, as it takes \<^verbatim>\<open>undefined\<close>.\<close>

definition Chron_insert :: "'a chron \<Rightarrow> 'a cursor \<Rightarrow> 'a \<Rightarrow> nat \<Rightarrow> error + 'a chron" where
  "Chron_insert c cur x k =
     bindE (Chron_prevTo c cur) (\<lambda>r.
       case r of
         None \<Rightarrow> Inr c
       | Some p \<Rightarrow>
           let i = vlength (chron_log c) in
           bindE (Vector_set (chron_log c) (index p)
                    (Atom \<lparr>index = index p, key = key p, atom = atom p,
                           former = former p, latter = Some i\<rparr>)) (\<lambda>l1.
           bindE (Vector_set l1 i
                    (Atom \<lparr>index = i, key = k, atom = Data x,
                           former = Some (index p), latter = latter p\<rparr>)) (\<lambda>l2.
             Inr \<lparr>chron_log = l2,
                  chron_last = (case latter p of
                                  None \<Rightarrow> i
                                | Some n \<Rightarrow> if n = 0 then i else chron_last c)\<rparr>)))"

text \<open>\<^verbatim>\<open>delete\<close>; \<^verbatim>\<open>_.isSame\<close> on \<^verbatim>\<open>undefined\<close> is a \<open>TypeError\<close>.\<close>

definition Chron_delete :: "'a chron \<Rightarrow> 'a entry \<Rightarrow> error + 'a chron" where
  "Chron_delete c element =
     bindE (log_get c (Some (index element))) (\<lambda>r.
       case r of
         None \<Rightarrow> Inl TypeError
       | Some e \<Rightarrow>
           if \<not> entry_isSame e (AEntry element) \<or> deleted e then Inr c
           else bindE (Vector_set (chron_log c) (index e)
                         (Atom \<lparr>index = index e, key = key e, atom = Deleted,
                                former = former e, latter = latter e\<rparr>)) (\<lambda>l.
                  Inr \<lparr>chron_log = l, chron_last = chron_last c\<rparr>))"

definition Chron_root :: "'a entry" where
  "Chron_root = \<lparr>index = 0, key = 0, atom = Deleted, former = None, latter = None\<rparr>"

text \<open>\<^verbatim>\<open>Chron.empty\<close> is \<^verbatim>\<open>new Chron(Vector.empty.append(Chron.root), 0)\<close>; the vector
  is written out (lemma \<open>Chron_empty_log\<close>).\<close>

definition Chron_empty :: "'a chron" where
  "Chron_empty = \<lparr>chron_log = \<lparr>vroot = Arr [Atom Chron_root], vshift = 0, vlength = 1\<rparr>,
                   chron_last = 0\<rparr>"

lemma Chron_empty_log: "Vector_append Vector_empty (Atom Chron_root) = Inr (chron_log Chron_empty)"
  by (simp add: Vector_append_def Vector_set_def set_at_def Vector_empty_def Chron_empty_def
        set_path_0 arr_set_def nodeSize_def nodeBits_def)

definition Chron_recent :: "'a chron \<Rightarrow> error + 'a entry option" where
  "Chron_recent c =
     (if vlength (chron_log c) = 0 then Inr None
      else log_get c (Some (vlength (chron_log c) - 1)))"


subsection \<open>The logs that \<open>insert\<close> and \<open>delete\<close> build\<close>

text \<open>
  \<open>es\<close> is the content of the log and \<open>full\<close> the order of the document: the indices of
  all entries, the root first, each the \<open>latter\<close> of the one before it. The \<open>former\<close>
  of an entry is an entry before it in this order (the one it was inserted after).
\<close>

definition chron_wf :: "'a chron \<Rightarrow> 'a entry list \<Rightarrow> nat list \<Rightarrow> bool" where
  "chron_wf c es full \<longleftrightarrow>
     holds (chron_log c) (map Atom es) \<and>
     (\<forall>i < length es. index (es ! i) = i) \<and>
     full \<noteq> [] \<and> full ! 0 = 0 \<and> distinct full \<and> set full = {..< length es} \<and>
     (\<forall>k < length full.
        latter (es ! (full ! k)) = (if Suc k < length full then Some (full ! Suc k) else None)) \<and>
     chron_last c = last full \<and>
     former (es ! 0) = None \<and>
     (\<forall>k < length full. 0 < k \<longrightarrow> (\<exists>k' < k. former (es ! (full ! k)) = Some (full ! k')))"

definition Chron_ok :: "'a chron \<Rightarrow> bool" where
  "Chron_ok c \<longleftrightarrow> (\<exists>es full. chron_wf c es full)"

lemma Chron_empty_wf: "chron_wf Chron_empty [Chron_root] [0]"
proof -
  have "holds (chron_log (Chron_empty :: 'a chron)) (map Atom [Chron_root :: 'a entry])"
    using holds_append [OF holds_empty, of "Atom (Chron_root :: 'a entry)"]
    by (simp add: Chron_empty_log)
  then show ?thesis
    by (simp add: chron_wf_def Chron_empty_def Chron_root_def lessThan_Suc)
qed

lemma wf_log_get:
  assumes "chron_wf c es full"
  shows "log_get c (Some i) = Inr (if i < length es then Some (es ! i) else None)"
proof -
  from assms have h: "holds (chron_log c) (map Atom es)"
    by (simp add: chron_wf_def)
  show ?thesis
  proof (cases "i < length es")
    case True
    with holds_get [OF h, of i] show ?thesis
      by (simp add: log_get_def)
  next
    case False
    with holds_get_beyond [OF h, of i] show ?thesis
      by (simp add: log_get_def)
  qed
qed

lemma wf_full_bound: "chron_wf c es full \<Longrightarrow> k < length full \<Longrightarrow> full ! k < length es"
  by (auto simp: chron_wf_def dest: nth_mem)

lemma wf_length: "chron_wf c es full \<Longrightarrow> length full = length es"
proof -
  assume "chron_wf c es full"
  then have "distinct full" "set full = {..< length es}"
    by (simp_all add: chron_wf_def)
  then show ?thesis
    by (metis card_lessThan distinct_card)
qed

text \<open>The entry at position \<open>k\<close> of the order, \<^verbatim>\<open>undefined\<close> beyond its end.\<close>

definition at_pos :: "'a entry list \<Rightarrow> nat list \<Rightarrow> nat \<Rightarrow> 'a entry option" where
  "at_pos es full k = (if k < length full then Some (es ! (full ! k)) else None)"

lemma wf_next:
  assumes "chron_wf c es full" and "k < length full"
  shows "log_get c (latter (es ! (full ! k))) = Inr (at_pos es full (Suc k))"
proof (cases "Suc k < length full")
  case True
  with assms have "latter (es ! (full ! k)) = Some (full ! Suc k)"
    by (simp add: chron_wf_def)
  with wf_log_get [OF assms(1)] wf_full_bound [OF assms(1) True] True show ?thesis
    by (simp add: at_pos_def)
next
  case False
  with assms have "latter (es ! (full ! k)) = None"
    by (simp add: chron_wf_def)
  with False show ?thesis
    by (simp add: at_pos_def log_get_def)
qed

lemma walk_to_end:
  assumes "chron_wf c es full"
  shows "k \<le> length full \<Longrightarrow> length full - k < n \<Longrightarrow>
         walk n c (at_pos es full k) None = Inr (map ((!) es) (drop k full))"
proof (induction n arbitrary: k)
  case 0
  then show ?case by simp
next
  case (Suc n)
  show ?case
  proof (cases "k < length full")
    case False
    with Suc.prems show ?thesis
      by (simp add: at_pos_def)
  next
    case True
    with Suc.prems have "walk n c (at_pos es full (Suc k)) None = Inr (map ((!) es) (drop (Suc k) full))"
      by (intro Suc.IH) simp_all
    with True wf_next [OF assms True] show ?thesis
      by (simp add: at_pos_def [of es full k] Cons_nth_drop_Suc [symmetric])
  qed
qed

lemma wf_anchor_entry:
  assumes "chron_wf c es full"
  shows "anchorOf_gen byKey c \<lparr>anchor = AEntry a, offset = off\<rparr> =
           Inr (if index a < length es \<and> key (es ! index a) = key a then Some (es ! index a) else None)"
  using assms wf_log_get [OF assms, of "index a"]
  by (auto simp: anchorOf_gen_def chron_wf_def)

lemma wf_as_range:
  assumes "chron_wf c es full"
  shows "Chron_as_range c = Inr \<lparr>head = entry_tail (es ! 0), tail = entry_tail (es ! last full)\<rparr>"
proof -
  from assms have ne: "full \<noteq> []" and z: "full ! 0 = 0" and l: "chron_last c = last full"
    by (simp_all add: chron_wf_def)
  from ne have "last full = full ! (length full - 1)"
    by (simp add: last_conv_nth)
  with wf_full_bound [OF assms, of "length full - 1"] ne have lb: "last full < length es"
    by simp
  from wf_full_bound [OF assms, of 0] ne z have "0 < length es"
    by simp
  with lb l wf_log_get [OF assms] show ?thesis
    by (simp add: Chron_as_range_def Chron_head_def Chron_tail_def)
qed

lemma wf_range_all:
  assumes "chron_wf c es full"
  shows "range_gen byKey c \<lparr>head = entry_tail (es ! 0), tail = entry_tail (es ! last full)\<rparr> =
           Inr (map ((!) es) (tl full))"
proof -
  from assms have ne: "full \<noteq> []" and z: "full ! 0 = 0"
    and idx: "\<And>i. i < length es \<Longrightarrow> index (es ! i) = i"
    by (simp_all add: chron_wf_def)
  from ne have lst: "last full = full ! (length full - 1)"
    by (simp add: last_conv_nth)
  with wf_full_bound [OF assms, of "length full - 1"] ne have lb: "last full < length es"
    by simp
  from wf_full_bound [OF assms, of 0] ne z have zb: "0 < length es"
    by simp
  have h: "nextTo_gen byKey c (entry_tail (es ! 0)) = Inr (at_pos es full 1)"
    using wf_anchor_entry [OF assms, of byKey "es ! 0" 1] idx [OF zb] zb
      wf_next [OF assms, of 0] ne z
    by (simp add: nextTo_gen_def entry_tail_def)
  have "latter (es ! last full) = None"
    using assms ne unfolding lst chron_wf_def by auto
  then have t: "nextTo_gen byKey c (entry_tail (es ! last full)) = Inr None"
    using wf_anchor_entry [OF assms, of byKey "es ! last full" 1] idx [OF lb] lb
    by (simp add: nextTo_gen_def entry_tail_def log_get_def)
  have "walk (walk_fuel c) c (at_pos es full 1) None = Inr (map ((!) es) (drop 1 full))"
    using assms ne
    by (intro walk_to_end [OF assms])
       (auto simp: walk_fuel_def chron_wf_def holds_def wf_length [OF assms] Suc_le_eq)
  with h t show ?thesis
    by (simp add: range_gen_def drop_Suc)
qed

lemma wf_entries:
  assumes "chron_wf c es full"
  shows "Chron_entries c = Inr (map ((!) es) (tl full))"
  by (simp add: Chron_entries_def wf_as_range [OF assms] Chron_range_def wf_range_all [OF assms])

lemma wf_find:
  assumes "chron_wf c es full"
  shows "Chron_find c test = Inr (List.find test (map ((!) es) (tl full)))"
  by (simp add: Chron_find_def wf_as_range [OF assms] wf_range_all [OF assms])


lemma wf_at: "chron_wf c es full \<Longrightarrow> k < length full \<Longrightarrow> index (es ! (full ! k)) = full ! k"
  using wf_full_bound [of c es full k] by (simp add: chron_wf_def)

lemma wf_anchorOf:
  assumes "chron_wf c es full"
  shows "\<exists>r. Chron_anchorOf c cur = Inr r \<and>
             (\<forall>e. r = Some e \<longrightarrow> (\<exists>k < length full. e = es ! (full ! k)))"
proof (cases "anchor cur")
  case (AEntry a)
  then have cur: "cur = \<lparr>anchor = AEntry a, offset = offset cur\<rparr>"
    by (cases cur) simp
  from assms have "set full = {..< length es}"
    by (simp add: chron_wf_def)
  then have "index a < length es \<Longrightarrow> \<exists>k < length full. index a = full ! k"
    by (metis in_set_conv_nth lessThan_iff)
  then show ?thesis
    unfolding Chron_anchorOf_def
    by (subst cur, subst wf_anchor_entry [OF assms]) fastforce
next
  case (AKey k)
  have "\<And>e. List.find (\<lambda>e. key e = k) (map ((!) es) (tl full)) = Some e \<Longrightarrow>
            \<exists>k < length full. e = es ! (full ! k)"
  proof -
    fix e assume "List.find (\<lambda>e. key e = k) (map ((!) es) (tl full)) = Some e"
    then have "e \<in> set (map ((!) es) (tl full))"
      by (auto simp: find_Some_iff)
    then obtain i where "i \<in> set (tl full)" "e = es ! i"
      by auto
    moreover then have "i \<in> set full"
      by (cases full) auto
    ultimately show "\<exists>k < length full. e = es ! (full ! k)"
      by (metis in_set_conv_nth)
  qed
  with AKey show ?thesis
    by (simp add: Chron_anchorOf_def anchorOf_gen_def wf_find [OF assms])
qed

lemma prev_loop_wf:
  assumes "chron_wf c es full"
  shows "k' < k \<Longrightarrow> k < length full \<Longrightarrow> k - k' < n \<Longrightarrow>
         prev_loop n c (Some (es ! (full ! k'))) (full ! k) = Inr (Some (es ! (full ! (k - 1))))"
proof (induction n arbitrary: k')
  case 0
  then show ?case by simp
next
  case (Suc n)
  from assms have d: "distinct full"
    by (simp add: chron_wf_def)
  from Suc.prems have k': "k' < length full" "Suc k' < length full"
    by simp_all
  with assms have lat: "latter (es ! (full ! k')) = Some (full ! Suc k')"
    by (simp add: chron_wf_def)
  show ?case
  proof (cases "Suc k' = k")
    case True
    with lat show ?thesis by auto
  next
    case False
    with d k' Suc.prems have ne: "full ! Suc k' \<noteq> full ! k"
      by (simp add: nth_eq_iff_index_eq)
    from False Suc.prems have "prev_loop n c (Some (es ! (full ! Suc k'))) (full ! k)
        = Inr (Some (es ! (full ! (k - 1))))"
      by (intro Suc.IH) simp_all
    with ne lat wf_next [OF assms k'(1)] k'(2) show ?thesis
      by (simp add: at_pos_def)
  qed
qed

lemma wf_prevTo:
  assumes "chron_wf c es full"
  shows "\<exists>r. Chron_prevTo c cur = Inr r \<and>
             (\<forall>p. r = Some p \<longrightarrow> (\<exists>j < length full. p = es ! (full ! j)))"
proof -
  from wf_anchorOf [OF assms, of cur] obtain r where
    r: "Chron_anchorOf c cur = Inr r" and
    rk: "\<And>e. r = Some e \<Longrightarrow> \<exists>k < length full. e = es ! (full ! k)"
    by blast
  show ?thesis
  proof (cases r)
    case None
    with r show ?thesis by (simp add: Chron_prevTo_def)
  next
    case (Some e)
    with rk obtain k where k: "k < length full" "e = es ! (full ! k)"
      by blast
    show ?thesis
    proof (cases "offset cur > 0")
      case True
      with r Some k show ?thesis
        by (auto simp: Chron_prevTo_def)
    next
      case False
      show ?thesis
      proof (cases "k = 0")
        case True
        with assms k have "former e = None"
          by (simp add: chron_wf_def)
        with r Some False show ?thesis
          by (simp add: Chron_prevTo_def log_get_def walk_fuel_def)
      next
        case nz: False
        with assms k obtain k' where k': "k' < k" "former e = Some (full ! k')"
          by (auto simp: chron_wf_def)
        from k' k have kb: "k' < length full" by simp
        have "k - k' < walk_fuel c"
          using k assms by (simp add: walk_fuel_def chron_wf_def holds_def wf_length [OF assms])
        from prev_loop_wf [OF assms k'(1) k(1) this]
        have "prev_loop (walk_fuel c) c (Some (es ! (full ! k'))) (full ! k)
                = Inr (Some (es ! (full ! (k - 1))))" .
        with r Some False k k' wf_log_get [OF assms, of "full ! k'"]
          wf_full_bound [OF assms kb] wf_at [OF assms k(1)]
        have "Chron_prevTo c cur = Inr (Some (es ! (full ! (k - 1))))"
          by (simp add: Chron_prevTo_def)
        with k show ?thesis
          by (auto intro: exI [of _ "k - 1"])
      qed
    qed
  qed
qed


lemma nth_insert_after:
  assumes "j < length full" and "k \<le> length full"
  shows "(take (Suc j) full @ n # drop (Suc j) full) ! k =
           (if k \<le> j then full ! k else if k = Suc j then n else full ! (k - 1))"
proof -
  from assms(1) have len: "length (take (Suc j) full) = Suc j"
    by simp
  show ?thesis
  proof (cases "k \<le> j")
    case True
    with assms(1) show ?thesis
      by (simp add: nth_append)
  next
    case False
    then obtain m where m: "k = Suc j + m"
      by (metis add_Suc_right less_imp_Suc_add not_le add.commute add_Suc)
    show ?thesis
    proof (cases m)
      case 0
      with m len show ?thesis
        by (simp add: nth_append)
    next
      case (Suc m')
      with m assms have "(n # drop (Suc j) full) ! m = full ! (Suc j + m')"
        by simp
      with m Suc len show ?thesis
        by (simp add: nth_append)
    qed
  qed
qed

lemma wf_insert:
  assumes wf: "chron_wf c es full" and j: "j < length full"
    and prev: "Chron_prevTo c cur = Inr (Some (es ! (full ! j)))"
  shows "\<exists>c'. Chron_insert c cur x k = Inr c' \<and>
          chron_wf c'
            (es[full ! j := (es ! (full ! j))\<lparr>latter := Some (length es)\<rparr>] @
               [\<lparr>index = length es, key = k, atom = Data x, former = Some (full ! j),
                 latter = latter (es ! (full ! j))\<rparr>])
            (take (Suc j) full @ length es # drop (Suc j) full)"
proof -
  define n where "n = length es"
  define a where "a = full ! j"
  define p where "p = es ! a"
  define p' where "p' = p\<lparr>latter := Some n\<rparr>"
  define new where "new = \<lparr>index = n, key = k, atom = Data x, former = Some a, latter = latter p\<rparr>"
  define es' where "es' = es[a := p'] @ [new]"
  define full' where "full' = take (Suc j) full @ n # drop (Suc j) full"
  from wf have h: "holds (chron_log c) (map Atom es)"
    and idx: "\<And>i. i < n \<Longrightarrow> index (es ! i) = i"
    and ne: "full \<noteq> []" and z: "full ! 0 = 0" and d: "distinct full"
    and st: "set full = {..< n}"
    and lat: "\<And>k. k < length full \<Longrightarrow>
        latter (es ! (full ! k)) = (if Suc k < length full then Some (full ! Suc k) else None)"
    and lst: "chron_last c = last full"
    and f0: "former (es ! 0) = None"
    and fm: "\<And>k. k < length full \<Longrightarrow> 0 < k \<Longrightarrow> \<exists>k' < k. former (es ! (full ! k)) = Some (full ! k')"
    by (simp_all add: chron_wf_def n_def)
  have lf: "length full = n"
    using wf_length [OF wf] by (simp add: n_def)
  have an: "a < n"
    using wf_full_bound [OF wf j] by (simp add: a_def n_def)
  have ip: "index p = a"
    using idx [OF an] by (simp add: p_def)
  have vl: "vlength (chron_log c) = n"
    using holds_length [OF h] by (simp add: n_def)
  have rec: "\<lparr>index = a, key = key p, atom = atom p, former = former p, latter = Some n\<rparr> = p'"
    using ip by (cases p) (simp add: p'_def)
  from holds_update [OF h, of a "Atom p'"] an obtain l1 where
    l1: "Vector_set (chron_log c) a (Atom p') = Inr l1" "holds l1 (map Atom (es[a := p']))"
    by (auto simp: n_def map_update)
  from holds_append [OF l1(2), of "Atom new"] obtain l2 where
    l2: "Vector_set l1 n (Atom new) = Inr l2" "holds l2 (map Atom es')"
    by (auto simp: Vector_append_def holds_length [OF l1(2)] n_def es'_def)
  define c' where "c' = \<lparr>chron_log = l2,
       chron_last = (case latter p of None \<Rightarrow> n | Some m \<Rightarrow> if m = 0 then n else chron_last c)\<rparr>"
  have ins: "Chron_insert c cur x k = Inr c'"
    using prev l1(1) l2(1)
    by (simp add: Chron_insert_def Let_def vl ip rec new_def [symmetric] c'_def
          p_def [symmetric] a_def [symmetric])
  have F: "\<And>m. m \<le> n \<Longrightarrow>
      full' ! m = (if m \<le> j then full ! m else if m = Suc j then n else full ! (m - 1))"
    unfolding full'_def using j lf by (intro nth_insert_after) simp_all
  have E: "\<And>i. i < n \<Longrightarrow> es' ! i = (if i = a then p' else es ! i)" "es' ! n = new"
    by (simp_all add: es'_def nth_append n_def nth_list_update)
  have len': "length full' = Suc n" "length es' = Suc n"
    using j lf by (simp_all add: full'_def es'_def n_def)
  have fb: "\<And>m. m < n \<Longrightarrow> full ! m < n"
    using wf_full_bound [OF wf] lf by (simp add: n_def)
  have inj: "\<And>m m'. m < n \<Longrightarrow> m' < n \<Longrightarrow> full ! m = full ! m' \<longleftrightarrow> m = m'"
    using d lf by (simp add: nth_eq_iff_index_eq)
  have jn: "j < n" using j lf by simp
  have lat_p: "latter p = (if Suc j < n then Some (full ! Suc j) else None)"
    using lat [OF j] lf by (simp add: p_def a_def)
  have "chron_wf c' es' full'"
    unfolding chron_wf_def
  proof (intro conjI allI impI)
    show "holds (chron_log c') (map Atom es')"
      using l2(2) by (simp add: c'_def)
  next
    fix i assume "i < length es'"
    then consider "i < n" | "i = n" using len' by fastforce
    then show "index (es' ! i) = i"
    proof cases
      case 1
      with E(1) [OF 1] idx [OF 1] ip show ?thesis
        by (simp add: p'_def)
    next
      case 2
      with E(2) show ?thesis by (simp add: new_def)
    qed
  next
    show "full' \<noteq> []" by (simp add: full'_def)
    show "full' ! 0 = 0" using F [of 0] z by simp
    have "n \<notin> set full" using st by simp
    moreover have "distinct (take (Suc j) full @ drop (Suc j) full)"
      using d by simp
    ultimately show "distinct full'"
      unfolding full'_def
      by (auto simp del: append_take_drop_id dest: in_set_takeD in_set_dropD)
    have "set (take (Suc j) full) \<union> set (drop (Suc j) full) = set full"
      by (metis append_take_drop_id set_append)
    then have "set full' = insert n (set full)"
      by (auto simp: full'_def)
    then show "set full' = {..< length es'}"
      using st len' by (auto simp: lessThan_Suc)
  next
    fix m assume "m < length full'"
    then have m: "m \<le> n" using len' by simp
    consider "m < j" | "m = j" | "m = Suc j" | "m > Suc j" by linarith
    then show "latter (es' ! (full' ! m)) =
        (if Suc m < length full' then Some (full' ! Suc m) else None)"
    proof cases
      case 1
      with jn have mn: "m < n" "Suc m < n" by simp_all
      from 1 jn inj [of m j] have "full ! m \<noteq> a" by (simp add: a_def)
      with 1 mn F [of m] F [of "Suc m"] E(1) [OF fb [OF mn(1)]] lat [of m] lf len'
      show ?thesis by simp
    next
      case 2
      with jn F [of m] F [of "Suc m"] E(1) [OF an] len'
      show ?thesis by (simp add: a_def p'_def)
    next
      case 3
      with m jn F [of m] F [of "Suc m"] E(2) lat_p len'
      show ?thesis by (auto simp: new_def)
    next
      case 4
      with m have m1: "m - 1 < n" "j < m - 1" by simp_all
      with jn inj [of "m - 1" j] have "full ! (m - 1) \<noteq> a" by (simp add: a_def)
      with 4 m m1 F [of m] F [of "Suc m"] E(1) [OF fb [OF m1(1)]] lat [of "m - 1"] lf len'
      show ?thesis by (auto simp: Suc_diff_Suc)
    qed
  next
    show "chron_last c' = last full'"
    proof (cases "Suc j < n")
      case True
      with jn lf have dn: "drop (Suc j) full \<noteq> []" by simp
      from True inj [of "Suc j" 0] z have "full ! Suc j \<noteq> 0" by simp
      with True lat_p lst dn show ?thesis
        by (simp add: c'_def full'_def)
    next
      case False
      with jn lf have "drop (Suc j) full = []" by simp
      with False lat_p show ?thesis
        by (simp add: c'_def full'_def)
    qed
  next
    have "0 < n" using jn by simp
    with E(1) [of 0] f0 show "former (es' ! 0) = None"
      by (simp add: p'_def p_def)
  next
    fix m assume "m < length full'" and pos: "0 < m"
    then have m: "m \<le> n" using len' by simp
    consider "m \<le> j" | "m = Suc j" | "m > Suc j" by linarith
    then show "\<exists>k' < m. former (es' ! (full' ! m)) = Some (full' ! k')"
    proof cases
      case 1
      with jn have mn: "m < n" by simp
      from fm [of m] mn pos lf obtain k' where k': "k' < m" "former (es ! (full ! m)) = Some (full ! k')"
        by auto
      from 1 mn F [of m] E(1) [OF fb [OF mn]] have "former (es' ! (full' ! m)) = former (es ! (full ! m))"
        by (auto simp: p'_def p_def a_def)
      moreover from k' 1 m have "full' ! k' = full ! k'"
        using F [of k'] by simp
      ultimately show ?thesis
        using k' by auto
    next
      case 2
      with m F [of m] F [of j] E(2) jn show ?thesis
        by (auto simp: new_def a_def intro!: exI [of _ j])
    next
      case 3
      with m have m1: "m - 1 < n" "j < m - 1" "0 < m - 1" by simp_all
      from fm [of "m - 1"] m1 lf obtain k' where
        k': "k' < m - 1" "former (es ! (full ! (m - 1))) = Some (full ! k')"
        by auto
      from jn inj [of "m - 1" j] m1 have "full ! (m - 1) \<noteq> a" by (simp add: a_def)
      with 3 m F [of m] E(1) [OF fb [OF m1(1)]]
      have fe: "former (es' ! (full' ! m)) = Some (full ! k')"
        using k' by simp
      show ?thesis
      proof (cases "k' \<le> j")
        case True
        with k' m F [of k'] have "full' ! k' = full ! k'" by simp
        with fe k' show ?thesis by (auto intro!: exI [of _ k'])
      next
        case False
        with k' m F [of "Suc k'"] have "full' ! Suc k' = full ! k'" by simp
        with fe k' show ?thesis by (auto intro!: exI [of _ "Suc k'"])
      qed
    qed
  qed
  with ins show ?thesis
    unfolding es'_def full'_def p'_def new_def p_def a_def n_def by blast
qed


subsection \<open>The data after an insert and after a delete\<close>

lemma live_append: "live (xs @ ys) = live xs @ live ys"
  by (induction xs) (auto split: atom.splits)

lemma live_map_cong:
  "(\<And>i. i \<in> set zs \<Longrightarrow> atom (f i) = atom (g i)) \<Longrightarrow> live (map f zs) = live (map g zs)"
  by (induction zs) (auto split: atom.splits)

lemma Chron_data_entries: "Chron_entries c = Inr es \<Longrightarrow> Chron_data c None = Inr (live es)"
  by (simp add: Chron_data_def)

lemma tl_insert_after:
  "full \<noteq> [] \<Longrightarrow> tl (take (Suc j) full @ n # drop (Suc j) full) = take j (tl full) @ n # drop j (tl full)"
  by (cases full) simp_all


lemma wf_delete:
  assumes wf: "chron_wf c es full" and i: "i < length es"
    and e: "index e = i" "key e = key (es ! i)" and live_e: "atom (es ! i) \<noteq> Deleted"
  shows "\<exists>c'. Chron_delete c e = Inr c' \<and> Chron_delete c' e = Inr c' \<and>
              chron_wf c' (es[i := (es ! i)\<lparr>atom := Deleted\<rparr>]) full"
proof -
  define q where "q = es ! i"
  define q' where "q' = q\<lparr>atom := Deleted\<rparr>"
  define es' where "es' = es[i := q']"
  from wf have h: "holds (chron_log c) (map Atom es)"
    and idx: "\<And>m. m < length es \<Longrightarrow> index (es ! m) = m"
    by (simp_all add: chron_wf_def)
  have iq: "index q = i" using idx [OF i] by (simp add: q_def)
  have rec: "\<lparr>index = i, key = key q, atom = Deleted, former = former q, latter = latter q\<rparr> = q'"
    using iq by (cases q) (simp add: q'_def)
  from holds_update [OF h, of i "Atom q'"] i obtain l where
    l: "Vector_set (chron_log c) i (Atom q') = Inr l" "holds l (map Atom es')"
    by (auto simp: map_update es'_def)
  define c' where "c' = \<lparr>chron_log = l, chron_last = chron_last c\<rparr>"
  have del: "Chron_delete c e = Inr c'"
    using wf_log_get [OF wf, of i] i e live_e l(1) iq
    by (simp add: Chron_delete_def deleted_def q_def [symmetric] rec c'_def)
  have same: "\<And>m. m < length es \<Longrightarrow>
      index (es' ! m) = index (es ! m) \<and> latter (es' ! m) = latter (es ! m) \<and>
      former (es' ! m) = former (es ! m)"
    using i by (simp add: es'_def q'_def q_def nth_list_update)
  have len: "length es' = length es"
    by (simp add: es'_def)
  have fb: "\<And>k. k < length full \<Longrightarrow> full ! k < length es"
    using wf_full_bound [OF wf] .
  have z: "0 < length es" using i by (cases es) auto
  have wf': "chron_wf c' es' full"
    unfolding chron_wf_def len
  proof (intro conjI allI impI)
    show "holds (chron_log c') (map Atom es')" using l(2) by (simp add: c'_def)
    show "full \<noteq> []" "full ! 0 = 0" "distinct full" "set full = {..< length es}"
      using wf by (simp_all add: chron_wf_def)
    show "chron_last c' = last full" using wf by (simp add: chron_wf_def c'_def)
    show "former (es' ! 0) = None" using wf same [OF z] by (simp add: chron_wf_def)
  next
    fix m assume "m < length es"
    with same [of m] idx [of m] show "index (es' ! m) = m" by simp
  next
    fix k assume k: "k < length full"
    with wf same [OF fb [OF k]] show "latter (es' ! (full ! k)) =
        (if Suc k < length full then Some (full ! Suc k) else None)"
      by (simp add: chron_wf_def)
  next
    fix k assume k: "k < length full" "0 < k"
    with wf same [OF fb [OF k(1)]] show "\<exists>k' < k. former (es' ! (full ! k)) = Some (full ! k')"
      by (simp add: chron_wf_def)
  qed
  have "es' ! i = q'" using i by (simp add: es'_def)
  then have "Chron_delete c' e = Inr c'"
    using wf_log_get [OF wf', of i] i e
    by (simp add: Chron_delete_def deleted_def es'_def q'_def)
  with del wf' show ?thesis
    unfolding es'_def q'_def q_def by blast
qed

text \<open>
  Claim C6. For an entry \<open>e\<close> that the iteration of the chron yields at place \<open>j\<close> and
  that is not deleted, \<^verbatim>\<open>data\<close> of \<^verbatim>\<open>chron.delete(e)\<close> is the former data without the
  atom of \<open>e\<close>, and deleting \<open>e\<close> again returns the same chron.
\<close>

theorem delete_removes_atom:
  assumes "Chron_ok c" and "Chron_entries c = Inr old" and "j < length old"
    and "atom (old ! j) = Data y"
  shows "\<exists>c'. Chron_delete c (old ! j) = Inr c' \<and> Chron_ok c' \<and>
          Chron_data c None = Inr (live (take j old) @ y # live (drop (Suc j) old)) \<and>
          Chron_data c' None = Inr (live (take j old) @ live (drop (Suc j) old)) \<and>
          Chron_delete c' (old ! j) = Inr c'"
proof -
  from assms(1) obtain es full where wf: "chron_wf c es full"
    by (auto simp: Chron_ok_def)
  from assms(2) wf_entries [OF wf] have old: "old = map ((!) es) (tl full)"
    by simp
  define i where "i = tl full ! j"
  from assms(3) have jt: "j < length (tl full)"
    by (simp add: old)
  then have e: "old ! j = es ! i"
    by (simp add: old i_def)
  from wf have ne: "full \<noteq> []" and d: "distinct full" and st: "set full = {..< length es}"
    by (simp_all add: chron_wf_def)
  from jt have "i \<in> set (tl full)" by (simp add: i_def)
  with ne have "i \<in> set full" by (cases full) auto
  with st have i: "i < length es" by simp
  from wf i have ie: "index (es ! i) = i"
    by (simp add: chron_wf_def)
  define es' where "es' = es[i := (es ! i)\<lparr>atom := Deleted\<rparr>]"
  from wf_delete [OF wf i, of "es ! i"] ie assms(4) e obtain c' where
    del: "Chron_delete c (es ! i) = Inr c'" "Chron_delete c' (es ! i) = Inr c'"
    and wf': "chron_wf c' es' full"
    by (auto simp: es'_def)
  from d ne have dt: "distinct (tl full)"
    by (simp add: distinct_tl)
  have split: "tl full = take j (tl full) @ i # drop (Suc j) (tl full)"
    using jt by (simp add: i_def id_take_nth_drop [symmetric])
  from dt have "distinct (take j (tl full) @ i # drop (Suc j) (tl full))"
    by (subst split [symmetric])
  then have notin: "i \<notin> set (take j (tl full))" "i \<notin> set (drop (Suc j) (tl full))"
    by auto
  have l1: "live (map ((!) es') (take j (tl full))) = live (map ((!) es) (take j (tl full)))"
  proof (rule live_map_cong)
    fix m assume "m \<in> set (take j (tl full))"
    with notin(1) have "m \<noteq> i" by auto
    then show "atom (es' ! m) = atom (es ! m)"
      by (simp add: es'_def)
  qed
  have l2: "live (map ((!) es') (drop (Suc j) (tl full))) = live (map ((!) es) (drop (Suc j) (tl full)))"
  proof (rule live_map_cong)
    fix m assume "m \<in> set (drop (Suc j) (tl full))"
    with notin(2) have "m \<noteq> i" by auto
    then show "atom (es' ! m) = atom (es ! m)"
      by (simp add: es'_def)
  qed
  have "map ((!) es') (tl full) = map ((!) es') (take j (tl full) @ i # drop (Suc j) (tl full))"
    by (rule arg_cong [OF split])
  with wf_entries [OF wf']
  have "Chron_entries c' = Inr (map ((!) es') (take j (tl full) @ i # drop (Suc j) (tl full)))"
    by (simp only:)
  then have d': "Chron_data c' None = Inr (live (take j old) @ live (drop (Suc j) old))"
    using i l1 l2
    by (simp add: Chron_data_def live_append es'_def old take_map drop_map)
  have "old = take j old @ old ! j # drop (Suc j) old"
    using assms(3) by (simp add: id_take_nth_drop [symmetric])
  then have "live old = live (take j old @ old ! j # drop (Suc j) old)"
    by simp
  also have "\<dots> = live (take j old) @ y # live (drop (Suc j) old)"
    using assms(4) by (simp add: live_append)
  finally have "live old = live (take j old) @ y # live (drop (Suc j) old)" .
  with Chron_data_entries [OF assms(2)]
  have d0: "Chron_data c None = Inr (live (take j old) @ y # live (drop (Suc j) old))"
    by (simp only:)
  from wf' have "Chron_ok c'" by (auto simp: Chron_ok_def)
  with del d0 d' e show ?thesis
    by auto
qed


subsection \<open>Instances\<close>

text \<open>The vector of the numbers 0 to 32: one level above the leaves.\<close>

definition vec33 :: "nat vector" where
  "vec33 = \<lparr>vroot = Arr [Arr (map Atom [0 ..< 32]), Arr [Atom 32]], vshift = 5, vlength = 33\<rparr>"

definition appends33 :: "(nat \<times> nat jsv) list" where
  "appends33 = map (\<lambda>n. (n, Atom n)) [0 ..< 33]"

lemma vec33_built: "sets appends33 Vector_empty = Inr vec33"
  by code_simp

lemma Vector_set_get_witness:
  "sets appends33 Vector_empty = Inr vec33 \<and> 32 < vlength vec33 \<and>
   (\<exists>v'. Vector_set vec33 32 (Atom 7) = Inr v' \<and> Vector_get v' 32 = Inr (Atom 7) \<and>
         vlength v' = vlength vec33)"
proof -
  from Vector_set_get [of appends33] obtain v where
    v: "sets appends33 Vector_empty = Inr v" and
    a: "\<And>i x. i < vlength v \<Longrightarrow>
          \<exists>v'. Vector_set v i x = Inr v' \<and> Vector_get v' i = Inr x \<and> vlength v' = vlength v"
    by blast
  from v vec33_built have "v = vec33"
    by simp
  with a [of 32 "Atom 7"] vec33_built show ?thesis
    by (simp add: vec33_def)
qed

lemma Chron_empty_ok: "Chron_ok Chron_empty"
  using Chron_empty_wf by (auto simp: Chron_ok_def)

lemma Chron_insert_ok:
  assumes "Chron_ok c" and "Chron_insert c cur x k = Inr c'"
  shows "Chron_ok c'"
proof -
  from assms(1) obtain es full where wf: "chron_wf c es full"
    by (auto simp: Chron_ok_def)
  from wf_prevTo [OF wf, of cur] obtain r where
    r: "Chron_prevTo c cur = Inr r" and
    rj: "\<And>p. r = Some p \<Longrightarrow> \<exists>j < length full. p = es ! (full ! j)"
    by blast
  show ?thesis
  proof (cases r)
    case None
    with r assms show ?thesis
      by (simp add: Chron_insert_def)
  next
    case (Some p)
    with rj obtain j where j: "j < length full" and p: "p = es ! (full ! j)"
      by blast
    from wf_insert [OF wf j, of cur x k] r Some p assms(2) obtain es' full' where
      "chron_wf c' es' full'"
      by auto
    then show ?thesis
      by (auto simp: Chron_ok_def)
  qed
qed

text \<open>The chron of 5 and 6: 5 is inserted after the root, 6 after the entry of key 101.\<close>

definition chron56 :: "nat chron" where
  "chron56 = projr (bindE (Chron_insert Chron_empty (entry_tail Chron_root) 5 101)
                     (\<lambda>c. Chron_insert c \<lparr>anchor = AKey 101, offset = 1\<rparr> 6 102))"

definition entry5 :: "nat entry" where
  "entry5 = \<lparr>index = 1, key = 101, atom = Data 5, former = Some 0, latter = Some 2\<rparr>"

definition entry6 :: "nat entry" where
  "entry6 = \<lparr>index = 2, key = 102, atom = Data 6, former = Some 1, latter = None\<rparr>"

lemma chron56_built:
  "bindE (Chron_insert Chron_empty (entry_tail Chron_root) 5 101)
     (\<lambda>c. Chron_insert c \<lparr>anchor = AKey 101, offset = 1\<rparr> 6 102) = Inr chron56"
  by code_simp

lemma chron56_entries: "Chron_entries chron56 = Inr [entry5, entry6]"
  by code_simp

lemma chron56_ok: "Chron_ok chron56"
proof -
  from chron56_built obtain c where
    c1: "Chron_insert Chron_empty (entry_tail Chron_root) 5 101 = Inr c" and
    c2: "Chron_insert c \<lparr>anchor = AKey 101, offset = 1\<rparr> 6 102 = Inr chron56"
    unfolding bindE_eq_Inr by blast
  have "Chron_ok c"
    using Chron_empty_ok c1 by (rule Chron_insert_ok)
  then show ?thesis
    using c2 by (rule Chron_insert_ok)
qed


lemma chron56_insert:
  "map_sum id (\<lambda>c. Chron_data c None) (Chron_insert chron56 (entry_head entry6) 7 103) = Inr (Inr [5, 7, 6])"
  by code_simp


theorem delete_removes_atom_witness:
  "Chron_ok chron56 \<and> Chron_entries chron56 = Inr [entry5, entry6] \<and>
   0 < length [entry5, entry6] \<and> atom ([entry5, entry6] ! 0) = Data 5 \<and>
   (\<exists>c'. Chron_delete chron56 entry5 = Inr c' \<and> Chron_ok c' \<and>
      Chron_data chron56 None = Inr [5, 6] \<and> Chron_data c' None = Inr [6] \<and>
      Chron_delete c' entry5 = Inr c')"
  using delete_removes_atom [OF chron56_ok chron56_entries, of 0 5] chron56_ok chron56_entries
  by (simp add: entry5_def entry6_def)


section \<open>Iteration of a vector (immutable.ts, \<^verbatim>\<open>Vector[Symbol.iterator]\<close>)\<close>

text \<open>
  The generator keeps a stack of pairs \<^verbatim>\<open>[node, index]\<close>, the node it reads from and the
  counter \<open>i\<close>, which starts at \<open>-1\<close>. The model counts the elements yielded so far,
  \<open>n = i + 1\<close>. The top of the stack is the head of the list.
\<close>

type_synonym 'a frame = "'a jsv \<times> nat"

text \<open>\<^verbatim>\<open>let step = stack.pop(); while (step[1] === nodeSize - 1) step = stack.pop()\<close>;
  \<^verbatim>\<open>pop\<close> of an empty stack is \<^verbatim>\<open>undefined\<close>, whose index 1 is a \<open>TypeError\<close>.\<close>

fun pop_steps :: "'a frame list \<Rightarrow> error + ('a frame \<times> 'a frame list)" where
  "pop_steps [] = Inl TypeError"
| "pop_steps ((nd, k) # st) = (if k = nodeSize - 1 then pop_steps st else Inr ((nd, k), st))"

text \<open>\<^verbatim>\<open>step[1]++; stack.push(step); node = step[0][step[1]]\<close>\<close>

definition next_sibling :: "'a frame list \<Rightarrow> error + ('a frame list \<times> 'a jsv)" where
  "next_sibling st =
     bindE (pop_steps st) (\<lambda>((nd, k), st').
     bindE (js_idx nd (Suc k)) (\<lambda>c. Inr ((nd, Suc k) # st', c)))"

text \<open>\<^verbatim>\<open>for (let shift = stack.length * nodeBits; shift < this.shift; shift += nodeBits)\<close>:
  each round pushes one pair, so \<open>shift\<close> stays \<^verbatim>\<open>stack.length * nodeBits\<close>.\<close>

function descend :: "nat \<Rightarrow> 'a frame list \<Rightarrow> 'a jsv \<Rightarrow> error + ('a frame list \<times> 'a jsv)" where
  "descend vsh st node =
     (if length st * nodeBits < vsh
      then bindE (js_idx node 0) (\<lambda>c. descend vsh ((node, 0) # st) c)
      else Inr (st, node))"
  by pat_completeness auto
termination
  by (relation "measure (\<lambda>(vsh, st, node). vsh - length st * nodeBits)") (auto simp: nodeBits_def)

declare descend.simps [simp del]

text \<open>One round of the \<^verbatim>\<open>while\<close> loop up to its \<^verbatim>\<open>yield\<close>: the element, the stack and
  the node.\<close>

definition iter_next ::
  "'a vector \<Rightarrow> 'a frame list \<Rightarrow> 'a jsv \<Rightarrow> nat \<Rightarrow> error + ('a jsv \<times> 'a frame list \<times> 'a jsv)" where
  "iter_next v st node n =
     bindE (if 2 \<le> n \<and> (n - 1) mod nodeSize = nodeSize - 1 then next_sibling st
            else Inr (st, node)) (\<lambda>(st1, node1).
     bindE (descend (vshift v) st1 node1) (\<lambda>(st2, node2).
     bindE (js_idx node2 (n mod nodeSize)) (\<lambda>y. Inr (y, st2, node2))))"

text \<open>
  A \<^verbatim>\<open>for (let x of vector)\<close> loop. The body gets the loop's variables \<open>acc\<close> and the
  element; it gives the new variables (\<open>Inl\<close>), or the value that the enclosing function
  returns from within the loop (\<open>Inr\<close>), after which the generator is not resumed.
\<close>

function for_of ::
  "'a vector \<Rightarrow> ('b \<Rightarrow> 'a jsv \<Rightarrow> error + ('b + 'c)) \<Rightarrow> 'a frame list \<Rightarrow> 'a jsv \<Rightarrow> nat \<Rightarrow> 'b
   \<Rightarrow> error + ('b + 'c)" where
  "for_of v body st node n acc =
     (if n < vlength v then
        bindE (iter_next v st node n) (\<lambda>(y, st', node').
        bindE (body acc y) (\<lambda>r.
          case r of
            Inl acc' \<Rightarrow> for_of v body st' node' (Suc n) acc'
          | Inr c \<Rightarrow> Inr (Inr c)))
      else Inr (Inl acc))"
  by pat_completeness auto
termination
  by (relation "measure (\<lambda>(v, body, st, node, n, acc). vlength v - n)") auto

declare for_of.simps [simp del]

definition Vector_for_of :: "'a vector \<Rightarrow> ('b \<Rightarrow> 'a jsv \<Rightarrow> error + ('b + 'c)) \<Rightarrow> 'b \<Rightarrow> error + ('b + 'c)" where
  "Vector_for_of v body acc = for_of v body [] (vroot v) 0 acc"


subsection \<open>The iteration yields the elements in the order of their indices\<close>

text \<open>The same loop over a list.\<close>

fun for_list :: "'a jsv list \<Rightarrow> ('b \<Rightarrow> 'a jsv \<Rightarrow> error + ('b + 'c)) \<Rightarrow> 'b \<Rightarrow> error + ('b + 'c)" where
  "for_list [] body acc = Inr (Inl acc)"
| "for_list (y # ys) body acc =
     bindE (body acc y) (\<lambda>r. case r of Inl acc' \<Rightarrow> for_list ys body acc' | Inr c \<Rightarrow> Inr (Inr c))"

text \<open>The stack and the leaf for the index \<open>i\<close> in a trie of \<open>e\<close> levels above the leaves.\<close>

definition child :: "'a jsv \<Rightarrow> nat \<Rightarrow> 'a jsv" where
  "child node k = (case node of Arr xs \<Rightarrow> arr_get xs k | _ \<Rightarrow> Undef)"

definition digit :: "nat \<Rightarrow> nat \<Rightarrow> nat" where
  "digit e i = (i div nodeSize ^ e) mod nodeSize"

fun path_from :: "'a frame list \<Rightarrow> 'a jsv \<Rightarrow> nat \<Rightarrow> nat \<Rightarrow> 'a frame list \<times> 'a jsv" where
  "path_from st node 0 i = (st, node)"
| "path_from st node (Suc e) i =
     path_from ((node, digit (Suc e) i) # st) (child node (digit (Suc e) i)) e i"

lemma nodeSize_pos [simp]: "0 < nodeSize"
  by (simp add: nodeSize_def)

lemma nodeSize_gt1: "1 < nodeSize"
  by (simp add: nodeSize_def nodeBits_def)

lemma zero_mod_mult:
  fixes x m b :: nat
  assumes "x mod (m * b) = 0"
  shows "x mod m = 0" and "(x div m) mod b = 0"
  using assms by (auto simp: mod_mult2_eq)

lemma carry_digit:
  fixes i m b :: nat
  assumes "Suc i mod (m * b) = 0" and "0 < b"
  shows "(i div m) mod b = b - 1"
proof -
  from assms(1) have a: "Suc i mod m = 0" and b: "(Suc i div m) mod b = 0"
    by (rule zero_mod_mult)+
  from a have "Suc i div m = Suc (i div m)"
    by (simp add: div_Suc)
  with b have "Suc (i div m) mod b = 0"
    by simp
  then show ?thesis
    using assms(2) by (auto simp: mod_Suc split: if_splits)
qed

lemma next_digit:
  fixes i m b :: nat
  assumes "Suc i mod m = 0" and "Suc i mod (m * b) \<noteq> 0" and "0 < b"
  shows "(i div m) mod b \<noteq> b - 1" and "(Suc i div m) mod b = Suc ((i div m) mod b)"
proof -
  from assms(1) have d: "Suc i div m = Suc (i div m)"
    by (simp add: div_Suc)
  from assms have nz: "(Suc i div m) mod b \<noteq> 0"
    by (auto simp: mod_mult2_eq)
  then have nz': "Suc (i div m) mod b \<noteq> 0"
    by (simp add: d)
  show "(i div m) mod b \<noteq> b - 1"
  proof
    assume "(i div m) mod b = b - 1"
    with assms(3) have "Suc ((i div m) mod b) = b"
      by simp
    then have "Suc (i div m) mod b = 0"
      by (simp add: mod_Suc)
    with nz' show False ..
  qed
  from nz' show "(Suc i div m) mod b = Suc ((i div m) mod b)"
    by (auto simp: d mod_Suc split: if_splits)
qed

lemma pow_step: "nodeSize ^ Suc (Suc e) = nodeSize ^ Suc e * nodeSize"
  by simp

lemma digit_zero:
  assumes "j mod nodeSize ^ Suc (Suc e) = 0"
  shows "j mod nodeSize ^ Suc e = 0" and "digit (Suc e) j = 0"
proof -
  from assms have z: "j mod (nodeSize ^ Suc e * nodeSize) = 0"
    by (simp only: pow_step)
  from z show "j mod nodeSize ^ Suc e = 0"
    by (rule zero_mod_mult)
  from z show "digit (Suc e) j = 0"
    unfolding digit_def by (rule zero_mod_mult)
qed

lemma digit_carry:
  assumes "Suc i mod nodeSize ^ Suc (Suc e) = 0"
  shows "digit (Suc e) i = nodeSize - 1"
proof -
  from assms have z: "Suc i mod (nodeSize ^ Suc e * nodeSize) = 0"
    by (simp only: pow_step)
  then show ?thesis
    unfolding digit_def by (rule carry_digit) (rule nodeSize_pos)
qed

lemma digit_next:
  assumes "Suc i mod nodeSize ^ Suc e = 0" and "Suc i mod nodeSize ^ Suc (Suc e) \<noteq> 0"
  shows "digit (Suc e) i \<noteq> nodeSize - 1" and "digit (Suc e) (Suc i) = Suc (digit (Suc e) i)"
proof -
  from assms(2) have nz: "Suc i mod (nodeSize ^ Suc e * nodeSize) \<noteq> 0"
    unfolding pow_step .
  show "digit (Suc e) i \<noteq> nodeSize - 1"
    unfolding digit_def using assms(1) nz nodeSize_pos by (rule next_digit)
  show "digit (Suc e) (Suc i) = Suc (digit (Suc e) i)"
    unfolding digit_def using assms(1) nz nodeSize_pos by (rule next_digit)
qed

lemma digit_same: "Suc i mod nodeSize ^ Suc e \<noteq> 0 \<Longrightarrow> digit (Suc e) (Suc i) = digit (Suc e) i"
  unfolding digit_def by (simp only: div_Suc if_False)

lemma low_nonzero:
  assumes "Suc i mod nodeSize \<noteq> 0"
  shows "Suc i mod nodeSize ^ Suc e \<noteq> 0"
proof
  assume "Suc i mod nodeSize ^ Suc e = 0"
  then have "Suc i mod (nodeSize * nodeSize ^ e) = 0"
    by simp
  then have "Suc i mod nodeSize = 0"
    by (rule zero_mod_mult)
  with assms show False ..
qed

lemma get_loop_level:
  "get_loop node (nodeBits * Suc e) i =
     bindE (js_idx node (digit (Suc e) i)) (\<lambda>n. get_loop n (nodeBits * e) i)"
  by (simp only: get_loop_Suc pow_nodeBits digit_def)

lemma get_loop_child:
  assumes "get_loop node (nodeBits * Suc e) i = Inr y"
  shows "get_loop (child node (digit (Suc e) i)) (nodeBits * e) i = Inr y"
    and "js_idx node k = Inr (child node k)"
proof -
  from assms obtain xs where xs: "node = Arr xs"
    by (auto dest: get_loop_Inr)
  from assms have "bindE (js_idx node (digit (Suc e) i)) (\<lambda>n. get_loop n (nodeBits * e) i) = Inr y"
    by (simp only: get_loop_level)
  then show "get_loop (child node (digit (Suc e) i)) (nodeBits * e) i = Inr y"
    by (simp add: xs child_def)
  from xs show "js_idx node k = Inr (child node k)"
    by (simp add: child_def)
qed

lemma length_path_from: "length (fst (path_from st node e i)) = length st + e"
  by (induction e arbitrary: st node) simp_all

lemma leaf_get:
  "get_loop node (nodeBits * e) j = Inr y \<Longrightarrow>
   js_idx (snd (path_from st node e j)) (j mod nodeSize) = Inr y"
proof (induction e arbitrary: st node)
  case 0
  then show ?case by (simp add: get_loop_0)
next
  case (Suc e)
  from get_loop_child(1) [OF Suc.prems] have
    "js_idx (snd (path_from ((node, digit (Suc e) j) # st) (child node (digit (Suc e) j)) e j))
       (j mod nodeSize) = Inr y"
    by (rule Suc.IH)
  then show ?case
    by (simp only: path_from.simps)
qed

lemma pop_all:
  "Suc i mod nodeSize ^ Suc e = 0 \<Longrightarrow>
   pop_steps (fst (path_from st node e i)) = pop_steps st"
proof (induction e arbitrary: st node)
  case 0
  then show ?case by simp
next
  case (Suc e)
  from Suc.prems have a: "Suc i mod nodeSize ^ Suc e = 0"
    by (rule digit_zero)
  from Suc.prems have k: "digit (Suc e) i = nodeSize - 1"
    by (rule digit_carry)
  have "pop_steps (fst (path_from st node (Suc e) i)) =
      pop_steps ((node, digit (Suc e) i) # st)"
    by (simp only: path_from.simps Suc.IH [OF a])
  also have "\<dots> = pop_steps st"
    by (simp only: k pop_steps.simps simp_thms if_True)
  finally show ?case .
qed

lemma descend_stop: "\<not> length st * nodeBits < vsh \<Longrightarrow> descend vsh st node = Inr (st, node)"
  by (subst descend.simps) simp

lemma descend_step:
  "length st * nodeBits < vsh \<Longrightarrow>
   descend vsh st node = bindE (js_idx node 0) (\<lambda>c. descend vsh ((node, 0) # st) c)"
  by (subst descend.simps) simp

lemma descend_zero:
  "j mod nodeSize ^ Suc e = 0 \<Longrightarrow> length st + e = d \<Longrightarrow>
   get_loop node (nodeBits * e) j = Inr y \<Longrightarrow>
   descend (nodeBits * d) st node = Inr (path_from st node e j)"
proof (induction e arbitrary: st node)
  case 0
  then show ?case
    by (simp add: descend_stop)
next
  case (Suc e)
  from Suc.prems(1) have a: "j mod nodeSize ^ Suc e = 0" and k: "digit (Suc e) j = 0"
    by (rule digit_zero)+
  from Suc.prems(2) have lt: "length st * nodeBits < nodeBits * d"
    by (auto simp: nodeBits_def)
  from Suc.prems(2) have len: "length ((node, 0 :: nat) # st) + e = d"
    by simp
  note c = get_loop_child [OF Suc.prems(3)]
  from c(1) have g: "get_loop (child node 0) (nodeBits * e) j = Inr y"
    by (simp only: k)
  have "descend (nodeBits * d) st node = descend (nodeBits * d) ((node, 0) # st) (child node 0)"
    by (simp only: descend_step [OF lt] c(2) bindE_simps)
  also have "\<dots> = Inr (path_from ((node, 0) # st) (child node 0) e j)"
    using a len g by (rule Suc.IH)
  finally show ?case
    by (simp only: path_from.simps k)
qed

lemma path_same:
  "Suc i mod nodeSize \<noteq> 0 \<Longrightarrow> path_from st node e (Suc i) = path_from st node e i"
proof (induction e arbitrary: st node)
  case 0
  show ?case by simp
next
  case (Suc e)
  from Suc.prems have "Suc i mod nodeSize ^ Suc e \<noteq> 0"
    by (rule low_nonzero)
  then have k: "digit (Suc e) (Suc i) = digit (Suc e) i"
    by (rule digit_same)
  show ?case
    by (simp only: path_from.simps k Suc.IH [OF Suc.prems])
qed

lemma next_path:
  "Suc i mod nodeSize = 0 \<Longrightarrow> Suc i mod nodeSize ^ Suc e \<noteq> 0 \<Longrightarrow>
   get_loop node (nodeBits * e) (Suc i) = Inr y \<Longrightarrow> length st + e = d \<Longrightarrow>
   bindE (next_sibling (fst (path_from st node e i))) (\<lambda>(st1, n1). descend (nodeBits * d) st1 n1)
     = Inr (path_from st node e (Suc i))"
proof (induction e arbitrary: st node)
  case 0
  then show ?case by simp
next
  case (Suc e)
  let ?k = "digit (Suc e) i"
  let ?k' = "digit (Suc e) (Suc i)"
  note c = get_loop_child [OF Suc.prems(3)]
  show ?case
  proof (cases "Suc i mod nodeSize ^ Suc e = 0")
    case False
    then have k: "?k' = ?k"
      by (rule digit_same)
    from Suc.prems(4) have len: "length ((node, ?k) # st) + e = d"
      by simp
    from c(1) have g: "get_loop (child node ?k) (nodeBits * e) (Suc i) = Inr y"
      by (simp only: k)
    from Suc.IH [OF Suc.prems(1) False g len] show ?thesis
      by (simp only: path_from.simps k)
  next
    case True
    from digit_next [OF True Suc.prems(2)] have k: "?k \<noteq> nodeSize - 1" and k': "?k' = Suc ?k"
      by simp_all
    have "pop_steps (fst (path_from ((node, ?k) # st) (child node ?k) e i)) = Inr ((node, ?k), st)"
      using k by (simp only: pop_all [OF True] pop_steps.simps if_False)
    then have "next_sibling (fst (path_from st node (Suc e) i)) =
        Inr ((node, Suc ?k) # st, child node (Suc ?k))"
      by (simp only: next_sibling_def path_from.simps bindE_simps prod.case c(2))
    moreover from Suc.prems(4) have len: "length ((node, Suc ?k) # st) + e = d"
      by simp
    from c(1) have "get_loop (child node (Suc ?k)) (nodeBits * e) (Suc i) = Inr y"
      by (simp only: k')
    from descend_zero [OF True len this]
    have "descend (nodeBits * d) ((node, Suc ?k) # st) (child node (Suc ?k)) =
        Inr (path_from st node (Suc e) (Suc i))"
      by (simp only: path_from.simps k')
    ultimately show ?thesis
      by (simp only: bindE_simps prod.case)
  qed
qed

text \<open>The state of the generator after it has yielded \<open>n\<close> elements.\<close>

definition iter_at :: "'a jsv \<Rightarrow> nat \<Rightarrow> nat \<Rightarrow> 'a frame list \<times> 'a jsv" where
  "iter_at root d n = (if n = 0 then ([], root) else path_from [] root d (n - 1))"

lemma iter_next_at:
  assumes sh: "vshift v = nodeBits * d" and n: "n < nodeSize ^ Suc d"
    and g: "get_loop (vroot v) (nodeBits * d) n = Inr y"
    and at: "(st, node) = iter_at (vroot v) d n"
  shows "iter_next v st node n = Inr (y, iter_at (vroot v) d (Suc n))"
proof -
  obtain st' node' where p': "path_from [] (vroot v) d n = (st', node')"
    by (cases "path_from [] (vroot v) d n")
  from leaf_get [OF g, of "[]"] p' have leaf: "js_idx node' (n mod nodeSize) = Inr y"
    by simp
  have goal: "iter_at (vroot v) d (Suc n) = (st', node')"
    by (simp add: iter_at_def p')
  have "\<exists>st1 node1.
      (if 2 \<le> n \<and> (n - 1) mod nodeSize = nodeSize - 1 then next_sibling st else Inr (st, node))
         = Inr (st1, node1) \<and>
      descend (nodeBits * d) st1 node1 = Inr (st', node')"
  proof (cases n)
    case 0
    with at have s: "st = []" "node = vroot v"
      by (simp_all add: iter_at_def)
    have "descend (nodeBits * d) [] (vroot v) = Inr (path_from [] (vroot v) d n)"
      using g 0 by (intro descend_zero) simp_all
    with 0 s p' show ?thesis
      by simp
  next
    case (Suc i)
    with at have p: "path_from [] (vroot v) d i = (st, node)"
      by (simp add: iter_at_def)
    show ?thesis
    proof (cases "Suc i mod nodeSize = 0")
      case True
      then have "i mod nodeSize = nodeSize - 1"
        using carry_digit [of i 1 nodeSize] by simp
      moreover from this nodeSize_gt1 have "1 \<le> i"
        by (cases i) auto
      ultimately have cond: "2 \<le> n \<and> (n - 1) mod nodeSize = nodeSize - 1"
        using Suc by simp
      from n Suc have "Suc i mod nodeSize ^ Suc d \<noteq> 0"
        by simp
      from next_path [OF True this, of "vroot v" y "[]" d] g Suc p p'
      have "bindE (next_sibling st) (\<lambda>(st1, n1). descend (nodeBits * d) st1 n1)
          = Inr (st', node')"
        by simp
      then obtain st1 node1 where "next_sibling st = Inr (st1, node1)"
        "descend (nodeBits * d) st1 node1 = Inr (st', node')"
        unfolding bindE_eq_Inr by auto
      with cond show ?thesis
        by simp
    next
      case False
      then have "i mod nodeSize \<noteq> nodeSize - 1"
        by (auto simp: mod_Suc split: if_splits)
      then have cond: "\<not> (2 \<le> n \<and> (n - 1) mod nodeSize = nodeSize - 1)"
        using Suc by simp
      from length_path_from [of "[]" "vroot v" d i] p have "length st = d"
        by simp
      then have "descend (nodeBits * d) st node = Inr (st, node)"
        by (intro descend_stop) simp
      moreover from path_same [OF False, of "[]" "vroot v" d] p p' Suc
      have "(st', node') = (st, node)"
        by simp
      ultimately show ?thesis
        using cond by auto
    qed
  qed
  then obtain st1 node1 where
    "(if 2 \<le> n \<and> (n - 1) mod nodeSize = nodeSize - 1 then next_sibling st else Inr (st, node))
       = Inr (st1, node1)"
    "descend (nodeBits * d) st1 node1 = Inr (st', node')"
    by blast
  then show ?thesis
    unfolding iter_next_def sh goal by (simp only: bindE_simps prod.case leaf)
qed

lemma for_of_list:
  assumes "holds v xs"
  shows "Vector_for_of v body acc = for_list xs body acc"
proof -
  from assms obtain d where len: "vlength v = length xs" and sh: "vshift v = nodeBits * d"
    and cap: "length xs \<le> nodeSize ^ Suc d"
    and gets: "\<And>j. j < length xs \<Longrightarrow> get_loop (vroot v) (nodeBits * d) j = Inr (xs ! j)"
    by (auto simp: holds_def)
  have "n \<le> length xs \<Longrightarrow> (st, node) = iter_at (vroot v) d n \<Longrightarrow>
        for_of v body st node n acc = for_list (drop n xs) body acc" for n st node acc
  proof (induction "length xs - n" arbitrary: n st node acc)
    case 0
    then show ?case
      by (subst for_of.simps) (simp add: len)
  next
    case (Suc k)
    then have n: "n < length xs"
      by simp
    from iter_next_at [OF sh _ gets [OF n] Suc.prems(2)] n cap
    have nx: "iter_next v st node n = Inr (xs ! n, iter_at (vroot v) d (Suc n))"
      by simp
    obtain st' node' where s': "iter_at (vroot v) d (Suc n) = (st', node')"
      by (cases "iter_at (vroot v) d (Suc n)")
    from Suc.hyps(2) have k: "k = length xs - Suc n"
      by simp
    from n have le: "Suc n \<le> length xs"
      by simp
    have ih: "for_of v body st' node' (Suc n) acc' = for_list (drop (Suc n) xs) body acc'" for acc'
      using Suc.hyps(1) [OF k le s' [symmetric]] .
    have dr: "drop n xs = xs ! n # drop (Suc n) xs"
      using n by (simp add: Cons_nth_drop_Suc)
    show ?case
      by (subst for_of.simps) (simp add: n len nx s' ih dr cong: bindE_cong sum.case_cong)
  qed
  from this [of 0 "[]" "vroot v" acc] show ?thesis
    by (simp add: Vector_for_of_def iter_at_def)
qed


section \<open>ChronMarkup (immutable.ts): \<^verbatim>\<open>mark\<close>, \<^verbatim>\<open>rangeOf\<close>, \<^verbatim>\<open>unmark\<close>\<close>

text \<open>
  A marker has its data and a range or \<^verbatim>\<open>undefined\<close>. The data of markers are compared
  with \<^verbatim>\<open>==\<close> and \<^verbatim>\<open>!=\<close>; the model takes the equality of the type of the data for it
  (data of one type that are equal to themselves). The vector of a markup holds markers
  only; the model stops with \<open>TypeError\<close> at any other element, as the code does at
  \<^verbatim>\<open>undefined\<close>.
\<close>

record ('m, 'a) marker =
  marker_data :: 'm
  marker_range :: "'a range option"

record ('m, 'a) markup =
  markers :: "('m, 'a) marker vector"

definition js_obj :: "'x jsv \<Rightarrow> error + 'x" where
  "js_obj y = (case y of Atom m \<Rightarrow> Inr m | _ \<Rightarrow> Inl TypeError)"

text \<open>A \<^verbatim>\<open>for ... of\<close> loop over a vector that is never left by \<^verbatim>\<open>return\<close>.\<close>

definition Vector_for_each :: "'a vector \<Rightarrow> ('b \<Rightarrow> 'a jsv \<Rightarrow> error + 'b) \<Rightarrow> 'b \<Rightarrow> error + 'b" where
  "Vector_for_each v body acc =
     bindE (Vector_for_of v (\<lambda>a y. bindE (body a y) (\<lambda>a'. Inr (Inl a'))) acc)
       (\<lambda>r. case r of Inl a \<Rightarrow> Inr a | Inr a \<Rightarrow> Inr a)"

definition ChronMarkup_empty :: "('m, 'a) markup" where
  "ChronMarkup_empty = \<lparr>markers = Vector_empty\<rparr>"

text \<open>\<^verbatim>\<open>for (let marker of this.markers) if (!marker.range) garbage++\<close>\<close>

definition count_garbage :: "('m, 'a) marker vector \<Rightarrow> error + nat" where
  "count_garbage ms =
     Vector_for_each ms (\<lambda>garbage y. bindE (js_obj y) (\<lambda>marker.
       Inr (if marker_range marker = None then Suc garbage else garbage))) 0"

text \<open>The loop over the indices (lines 420 to 429): the first marker of the data is
  replaced, or a new marker is appended.\<close>

function mark_loop ::
  "('m, 'a) marker vector \<Rightarrow> nat \<Rightarrow> 'm \<Rightarrow> 'a range option \<Rightarrow> error + ('m, 'a) marker vector" where
  "mark_loop ms i d r =
     (if i < vlength ms then
        bindE (Vector_get ms i) (\<lambda>y.
        bindE (js_obj y) (\<lambda>entry.
          if marker_data entry \<noteq> d then mark_loop ms (Suc i) d r
          else Vector_set ms i (Atom \<lparr>marker_data = d, marker_range = r\<rparr>)))
      else Vector_append ms (Atom \<lparr>marker_data = d, marker_range = r\<rparr>))"
  by pat_completeness auto
termination
  by (relation "measure (\<lambda>(ms, i, d, r). vlength ms - i)") auto

declare mark_loop.simps [simp del]

text \<open>
  \<^verbatim>\<open>mark\<close> calls itself on the copy that it builds when more than 16 markers have no
  range. The first argument bounds the depth of these calls.
\<close>

fun mark_fuel ::
  "nat \<Rightarrow> ('m, 'a) markup \<Rightarrow> 'm \<Rightarrow> 'a range option \<Rightarrow> error + ('m, 'a) markup" where
  "mark_fuel 0 mk d r = Inl Diverges"
| "mark_fuel (Suc f) mk d r =
     bindE (count_garbage (markers mk)) (\<lambda>garbage.
       if garbage > 16 then
         bindE (Vector_for_each (markers mk) (\<lambda>copy y. bindE (js_obj y) (\<lambda>marker.
                  if marker_range marker \<noteq> None
                  then mark_fuel f copy (marker_data marker) (marker_range marker)
                  else Inr copy)) ChronMarkup_empty) (\<lambda>copy.
         mark_fuel f copy d r)
       else
         bindE (mark_loop (markers mk) 0 d r) (\<lambda>ms. Inr \<lparr>markers = ms\<rparr>))"

text \<open>A copy has no marker without a range, so that a call on a copy builds no copy:
  the depth of the calls is at most 2.\<close>

definition ChronMarkup_mark ::
  "('m, 'a) markup \<Rightarrow> 'm \<Rightarrow> 'a range option \<Rightarrow> error + ('m, 'a) markup" where
  "ChronMarkup_mark mk d r = mark_fuel 2 mk d r"

definition ChronMarkup_unmark :: "('m, 'a) markup \<Rightarrow> 'm \<Rightarrow> error + ('m, 'a) markup" where
  "ChronMarkup_unmark mk d = ChronMarkup_mark mk d None"

text \<open>\<^verbatim>\<open>rangeOf\<close>: the range of the first marker of the data.\<close>

definition ChronMarkup_rangeOf :: "('m, 'a) markup \<Rightarrow> 'm \<Rightarrow> error + 'a range option" where
  "ChronMarkup_rangeOf mk d =
     bindE (Vector_for_of (markers mk) (\<lambda>u y. bindE (js_obj y) (\<lambda>m.
              if marker_data m = d then Inr (Inr (marker_range m)) else Inr (Inl u))) ())
       (\<lambda>r. case r of Inl u \<Rightarrow> Inr None | Inr x \<Rightarrow> Inr x)"

text \<open>The iterator of a markup: the markers that have a range.\<close>

definition ChronMarkup_iter :: "('m, 'a) markup \<Rightarrow> error + ('m, 'a) marker list" where
  "ChronMarkup_iter mk =
     Vector_for_each (markers mk) (\<lambda>out y. bindE (js_obj y) (\<lambda>marker.
       Inr (if marker_range marker \<noteq> None then out @ [marker] else out))) []"

text \<open>A sequence of calls of \<^verbatim>\<open>mark\<close> (\<^verbatim>\<open>unmark\<close> is \<^verbatim>\<open>mark\<close> with no range).\<close>

fun marks :: "('m \<times> 'a range option) list \<Rightarrow> ('m, 'a) markup \<Rightarrow> error + ('m, 'a) markup" where
  "marks [] mk = Inr mk"
| "marks ((d, r) # ops) mk = bindE (ChronMarkup_mark mk d r) (marks ops)"


subsection \<open>The markers as a list\<close>

fun upd_first :: "'m \<Rightarrow> 'a range option \<Rightarrow> ('m, 'a) marker list \<Rightarrow> ('m, 'a) marker list" where
  "upd_first d r [] = [\<lparr>marker_data = d, marker_range = r\<rparr>]"
| "upd_first d r (m # ms) =
     (if marker_data m \<noteq> d then m # upd_first d r ms
      else \<lparr>marker_data = d, marker_range = r\<rparr> # ms)"

definition keep :: "('m, 'a) marker list \<Rightarrow> ('m, 'a) marker \<Rightarrow> ('m, 'a) marker list" where
  "keep cs m = (if marker_range m \<noteq> None then upd_first (marker_data m) (marker_range m) cs else cs)"

definition garbage_of :: "('m, 'a) marker list \<Rightarrow> nat" where
  "garbage_of ms = length (filter (\<lambda>m. marker_range m = None) ms)"

definition mark_list :: "('m, 'a) marker list \<Rightarrow> 'm \<Rightarrow> 'a range option \<Rightarrow> ('m, 'a) marker list" where
  "mark_list ms d r =
     (if garbage_of ms > 16 then upd_first d r (foldl keep [] ms) else upd_first d r ms)"

definition has :: "('m, 'a) markup \<Rightarrow> ('m, 'a) marker list \<Rightarrow> bool" where
  "has mk ms \<longleftrightarrow> holds (markers mk) (map Atom ms)"

lemma for_each_list:
  assumes "holds v xs"
  shows "Vector_for_each v body acc =
         bindE (for_list xs (\<lambda>a y. bindE (body a y) (\<lambda>a'. Inr (Inl a'))) acc)
           (\<lambda>r. case r of Inl a \<Rightarrow> Inr a | Inr a \<Rightarrow> Inr a)"
  by (simp add: Vector_for_each_def for_of_list [OF assms])

lemma for_list_each:
  "bindE (for_list xs (\<lambda>a y. bindE (body a y) (\<lambda>a'. Inr (Inl a'))) acc)
     (\<lambda>r. case r of Inl a \<Rightarrow> Inr a | Inr a \<Rightarrow> Inr a)
   = foldl (\<lambda>r y. bindE r (\<lambda>a. body a y)) (Inr acc) xs"
proof (induction xs arbitrary: acc)
  case Nil
  show ?case by simp
next
  case (Cons y ys)
  show ?case
  proof (cases "body acc y")
    case (Inl e)
    have "foldl (\<lambda>r y. bindE r (\<lambda>a. body a y)) (Inl e) ys = Inl e"
      by (induction ys) simp_all
    with Inl show ?thesis by simp
  next
    case (Inr a)
    with Cons [of a] show ?thesis by simp
  qed
qed

lemma for_each_foldl:
  "holds v xs \<Longrightarrow>
   Vector_for_each v body acc = foldl (\<lambda>r y. bindE r (\<lambda>a. body a y)) (Inr acc) xs"
  by (simp only: for_each_list for_list_each)

lemma count_garbage_list:
  assumes "holds v (map Atom ms)"
  shows "count_garbage v = Inr (garbage_of ms)"
proof -
  have "foldl (\<lambda>r y. bindE r (\<lambda>a. bindE (js_obj y) (\<lambda>marker.
           Inr (if marker_range marker = None then Suc a else a)))) (Inr g) (map Atom ms)
        = Inr (g + garbage_of ms)" for g
    by (induction ms arbitrary: g) (simp_all add: garbage_of_def js_obj_def)
  from this [of 0] show ?thesis
    by (simp add: count_garbage_def for_each_foldl [OF assms])
qed

lemma iter_list:
  assumes "has mk ms"
  shows "ChronMarkup_iter mk = Inr (filter (\<lambda>m. marker_range m \<noteq> None) ms)"
proof -
  have "foldl (\<lambda>r y. bindE r (\<lambda>out. bindE (js_obj y) (\<lambda>marker.
           Inr (if marker_range marker \<noteq> None then out @ [marker] else out)))) (Inr out) (map Atom ms)
        = Inr (out @ filter (\<lambda>m. marker_range m \<noteq> None) ms)" for out
    by (induction ms arbitrary: out) (simp_all add: js_obj_def)
  from this [of "[]"] assms show ?thesis
    by (simp add: ChronMarkup_iter_def has_def for_each_foldl)
qed

lemma rangeOf_list:
  assumes "has mk ms"
  shows "ChronMarkup_rangeOf mk d =
         Inr (case find (\<lambda>m. marker_data m = d) ms of None \<Rightarrow> None | Some m \<Rightarrow> marker_range m)"
proof -
  have "bindE (for_list (map Atom ms) (\<lambda>u y. bindE (js_obj y) (\<lambda>m.
              if marker_data m = d then Inr (Inr (marker_range m)) else Inr (Inl u))) ())
       (\<lambda>r. case r of Inl u \<Rightarrow> Inr None | Inr x \<Rightarrow> Inr x)
     = Inr (case find (\<lambda>m. marker_data m = d) ms of None \<Rightarrow> None | Some m \<Rightarrow> marker_range m)"
    by (induction ms) (simp_all add: js_obj_def)
  with assms show ?thesis
    by (simp add: ChronMarkup_rangeOf_def has_def for_of_list)
qed

lemma find_upd_first:
  "find (\<lambda>m. marker_data m = d) (upd_first d r ms) = Some \<lparr>marker_data = d, marker_range = r\<rparr>"
  by (induction ms) simp_all

lemma data_upd_first: "set (map marker_data (upd_first d r ms)) = insert d (set (map marker_data ms))"
  by (induction ms) auto

lemma distinct_upd_first:
  "distinct (map marker_data ms) \<Longrightarrow> distinct (map marker_data (upd_first d r ms))"
proof (induction ms)
  case Nil
  show ?case by simp
next
  case (Cons m ms)
  then show ?case
    using data_upd_first [of d r ms] by auto
qed

lemma garbage_upd_first: "garbage_of ms = 0 \<Longrightarrow> r \<noteq> None \<Longrightarrow> garbage_of (upd_first d r ms) = 0"
  by (induction ms) (auto simp: garbage_of_def split: if_splits)

lemma distinct_keep: "distinct (map marker_data cs) \<Longrightarrow> distinct (map marker_data (keep cs m))"
  by (simp add: keep_def distinct_upd_first)

lemma garbage_keep: "garbage_of cs = 0 \<Longrightarrow> garbage_of (keep cs m) = 0"
  by (simp add: keep_def garbage_upd_first)

lemma foldl_keep:
  "distinct (map marker_data cs) \<Longrightarrow> garbage_of cs = 0 \<Longrightarrow>
   distinct (map marker_data (foldl keep cs ms)) \<and> garbage_of (foldl keep cs ms) = 0"
  by (induction ms arbitrary: cs) (simp_all add: distinct_keep garbage_keep)

lemma distinct_mark_list:
  "distinct (map marker_data ms) \<Longrightarrow> distinct (map marker_data (mark_list ms d r))"
  using foldl_keep [of "[]" ms]
  by (simp add: mark_list_def distinct_upd_first garbage_of_def)

lemma find_mark_list:
  "find (\<lambda>m. marker_data m = d) (mark_list ms d r) = Some \<lparr>marker_data = d, marker_range = r\<rparr>"
  by (simp add: mark_list_def find_upd_first)


subsection \<open>\<^verbatim>\<open>mark\<close> on the markers\<close>

lemma mark_loop_list:
  assumes h: "holds v (map Atom ms)"
  shows "i \<le> length ms \<Longrightarrow>
         \<exists>v'. mark_loop v i d r = Inr v' \<and>
              holds v' (map Atom (take i ms @ upd_first d r (drop i ms)))"
proof (induction "length ms - i" arbitrary: i)
  case 0
  then have i: "i = length ms" by simp
  from holds_append [OF h, of "Atom \<lparr>marker_data = d, marker_range = r\<rparr>"] obtain v' where
    "Vector_append v (Atom \<lparr>marker_data = d, marker_range = r\<rparr>) = Inr v'"
    "holds v' (map Atom ms @ [Atom \<lparr>marker_data = d, marker_range = r\<rparr>])"
    by blast
  then show ?case
    using holds_length [OF h] by (subst mark_loop.simps) (simp add: i)
next
  case (Suc k)
  then have i: "i < length ms" by simp
  from holds_get [OF h, of i] i have g: "Vector_get v i = Inr (Atom (ms ! i))"
    by simp
  have dr: "drop i ms = ms ! i # drop (Suc i) ms"
    using i by (simp add: Cons_nth_drop_Suc)
  show ?case
  proof (cases "marker_data (ms ! i) \<noteq> d")
    case True
    from Suc.hyps(2) have "k = length ms - Suc i" by simp
    from Suc.hyps(1) [OF this] i obtain v' where
      v': "mark_loop v (Suc i) d r = Inr v'"
      "holds v' (map Atom (take (Suc i) ms @ upd_first d r (drop (Suc i) ms)))"
      by auto
    have "take (Suc i) ms @ upd_first d r (drop (Suc i) ms) = take i ms @ upd_first d r (drop i ms)"
      using i True by (simp add: dr take_Suc_conv_app_nth)
    with v' show ?thesis
      using i True holds_length [OF h] g
      by (subst mark_loop.simps) (simp add: js_obj_def)
  next
    case False
    from holds_update [OF h, of i "Atom \<lparr>marker_data = d, marker_range = r\<rparr>"] i obtain v' where
      v': "Vector_set v i (Atom \<lparr>marker_data = d, marker_range = r\<rparr>) = Inr v'"
      "holds v' ((map Atom ms)[i := Atom \<lparr>marker_data = d, marker_range = r\<rparr>])"
      by auto
    have "(map Atom ms)[i := Atom \<lparr>marker_data = d, marker_range = r\<rparr>] =
        map Atom (take i ms @ upd_first d r (drop i ms))"
      using i False by (simp add: dr upd_conv_take_nth_drop take_map drop_map)
    with v' show ?thesis
      using i False holds_length [OF h] g
      by (subst mark_loop.simps) (simp add: js_obj_def)
  qed
qed

lemma mark_plain:
  assumes "has mk ms" and "garbage_of ms \<le> 16"
  shows "\<exists>mk'. mark_fuel (Suc f) mk d r = Inr mk' \<and> has mk' (upd_first d r ms)"
proof -
  from assms(1) have h: "holds (markers mk) (map Atom ms)"
    by (simp add: has_def)
  from mark_loop_list [OF h, of 0 d r] obtain v' where
    "mark_loop (markers mk) 0 d r = Inr v'" "holds v' (map Atom (upd_first d r ms))"
    by auto
  with assms(2) show ?thesis
    by (simp add: count_garbage_list [OF h] has_def)
qed

lemma copy_marks:
  assumes "has copy cs" and "garbage_of cs = 0"
  shows "\<exists>copy'. foldl (\<lambda>r y. bindE r (\<lambda>copy. bindE (js_obj y) (\<lambda>marker.
                  if marker_range marker \<noteq> None
                  then mark_fuel (Suc f) copy (marker_data marker) (marker_range marker)
                  else Inr copy))) (Inr copy) (map Atom ms) = Inr copy' \<and>
                has copy' (foldl keep cs ms)"
  using assms
proof (induction ms arbitrary: copy cs)
  case Nil
  then show ?case by simp
next
  case (Cons m ms)
  show ?case
  proof (cases "marker_range m \<noteq> None")
    case True
    from Cons.prems(2) have "garbage_of cs \<le> 16" by simp
    from mark_plain [OF Cons.prems(1) this, of f "marker_data m" "marker_range m"] obtain c' where
      c': "mark_fuel (Suc f) copy (marker_data m) (marker_range m) = Inr c'"
      "has c' (upd_first (marker_data m) (marker_range m) cs)"
      by blast
    from c'(2) True have h: "has c' (keep cs m)"
      by (simp add: keep_def)
    from Cons.IH [OF h garbage_keep [OF Cons.prems(2)]] c'(1) True show ?thesis
      by (simp add: js_obj_def)
  next
    case False
    then have "keep cs m = cs"
      by (simp add: keep_def)
    with Cons.IH [OF Cons.prems] False show ?thesis
      by (simp add: js_obj_def)
  qed
qed

lemma has_empty: "has ChronMarkup_empty []"
  using holds_empty by (simp add: has_def ChronMarkup_empty_def)

lemma mark_has:
  assumes "has mk ms"
  shows "\<exists>mk'. ChronMarkup_mark mk d r = Inr mk' \<and> has mk' (mark_list ms d r)"
proof (cases "garbage_of ms > 16")
  case False
  then have "garbage_of ms \<le> 16" by simp
  from mark_plain [OF assms this, of 1 d r] False show ?thesis
    by (simp add: ChronMarkup_mark_def mark_list_def numeral_2_eq_2)
next
  case True
  from assms have h: "holds (markers mk) (map Atom ms)"
    by (simp add: has_def)
  have g0: "garbage_of ([] :: ('a, 'b) marker list) = 0"
    by (simp add: garbage_of_def)
  from copy_marks [OF has_empty g0, of 0 ms] obtain copy where
    copy: "foldl (\<lambda>r y. bindE r (\<lambda>copy. bindE (js_obj y) (\<lambda>marker.
                  if marker_range marker \<noteq> None
                  then mark_fuel (Suc 0) copy (marker_data marker) (marker_range marker)
                  else Inr copy))) (Inr ChronMarkup_empty) (map Atom ms) = Inr copy"
    and hc: "has copy (foldl keep [] ms)"
    by blast
  from foldl_keep [of "[]" ms] g0 have "garbage_of (foldl keep [] ms) \<le> 16"
    by simp
  from mark_plain [OF hc this, of 0 d r] obtain mk' where
    "mark_fuel (Suc 0) copy d r = Inr mk'" "has mk' (upd_first d r (foldl keep [] ms))"
    by blast
  with True copy show ?thesis
    by (simp add: ChronMarkup_mark_def mark_list_def numeral_2_eq_2 count_garbage_list [OF h]
          for_each_foldl [OF h])
qed

text \<open>The markups that calls of \<^verbatim>\<open>mark\<close> and \<^verbatim>\<open>unmark\<close> build from the empty one.\<close>

lemma marks_has:
  assumes "has mk ms" and "distinct (map marker_data ms)"
  shows "\<exists>mk' ms'. marks ops mk = Inr mk' \<and> has mk' ms' \<and> distinct (map marker_data ms')"
  using assms
proof (induction ops arbitrary: mk ms)
  case Nil
  then show ?case by auto
next
  case (Cons op ops)
  obtain d r where op: "op = (d, r)" by (cases op)
  from mark_has [OF Cons.prems(1), of d r] obtain mk1 where
    m1: "ChronMarkup_mark mk d r = Inr mk1" "has mk1 (mark_list ms d r)"
    by blast
  from Cons.IH [OF m1(2) distinct_mark_list [OF Cons.prems(2)]] m1(1) show ?case
    by (simp add: op)
qed



section \<open>ChronMarkup (immutable.ts): \<^verbatim>\<open>entries\<close>\<close>

text \<open>
  The enumeration calls \<^verbatim>\<open>set.add\<close>, \<^verbatim>\<open>set.delete\<close> and \<^verbatim>\<open>set.covered\<close> and yields
  entries; the model returns these calls and yields in their order. \<^verbatim>\<open>set.filter\<close> and
  \<^verbatim>\<open>set.covered\<close> are optional. A marker in a bucket or in the set \<^verbatim>\<open>markers\<close> is an
  object; the model gives each marker that the markup yields its place in this order
  as its identity.
\<close>

datatype ('m, 'a) event =
  Add 'm "'a cursor" | Delete 'm "'a cursor" | Yield "'a entry" | Covered 'm "'a range"

type_synonym ('m, 'a) item = "nat \<times> 'm \<times> 'a range"
type_synonym ('m, 'a) buckets = "int \<Rightarrow> ('m, 'a) item list"

text \<open>\<^verbatim>\<open>chron.anchorOf(cursor)?.index || -1\<close>: the index 0 of the root is false.\<close>

definition bucket_key :: "'a chron \<Rightarrow> 'a cursor \<Rightarrow> error + int" where
  "bucket_key c cur =
     bindE (Chron_anchorOf c cur) (\<lambda>a.
       Inr (case a of None \<Rightarrow> - 1 | Some e \<Rightarrow> if index e = 0 then - 1 else int (index e)))"

text \<open>\<^verbatim>\<open>push\<close>: a bucket that the map does not have reads as the empty list.\<close>

definition push_marker ::
  "'a chron \<Rightarrow> 'a cursor \<Rightarrow> ('m, 'a) item \<Rightarrow> ('m, 'a) buckets \<times> ('m, 'a) buckets
   \<Rightarrow> error + ('m, 'a) buckets \<times> ('m, 'a) buckets" where
  "push_marker c cur it hb =
     bindE (bucket_key c cur) (\<lambda>k.
       Inr (if offset cur < 0 then ((fst hb)(k := fst hb k @ [it]), snd hb)
            else (fst hb, (snd hb)(k := snd hb k @ [it]))))"

text \<open>\<^verbatim>\<open>for (let marker of this) { ... push(marker.range.head, marker);
  push(marker.range.tail, marker) }\<close>\<close>

fun register ::
  "'a chron \<Rightarrow> ('m \<Rightarrow> 'a range \<Rightarrow> bool) option \<Rightarrow> (nat \<times> ('m, 'a) marker) list
   \<Rightarrow> ('m, 'a) buckets \<times> ('m, 'a) buckets \<Rightarrow> error + ('m, 'a) buckets \<times> ('m, 'a) buckets" where
  "register c flt [] hb = Inr hb"
| "register c flt ((i, m) # ms) hb =
     (case marker_range m of
        None \<Rightarrow> Inl TypeError
      | Some r \<Rightarrow>
          if (case flt of None \<Rightarrow> False | Some f \<Rightarrow> \<not> f (marker_data m) r)
          then register c flt ms hb
          else bindE (push_marker c (head r) (i, marker_data m, r) hb) (\<lambda>hb1.
               bindE (push_marker c (tail r) (i, marker_data m, r) hb1) (register c flt ms)))"

text \<open>\<^verbatim>\<open>trigger\<close>: the set \<^verbatim>\<open>markers\<close> in the order of insertion, and the calls so far.\<close>

definition trigger ::
  "bool \<Rightarrow> ('m, 'a) item \<Rightarrow> ('m, 'a) item list \<times> ('m, 'a) event list
   \<Rightarrow> ('m, 'a) item list \<times> ('m, 'a) event list" where
  "trigger silent it st =
     (case it of (i, d, r) \<Rightarrow>
        if i \<in> fst ` set (fst st)
        then (filter (\<lambda>x. fst x \<noteq> i) (fst st),
              if silent then snd st else snd st @ [Delete d (tail r)])
        else (fst st @ [it], if silent then snd st else snd st @ [Add d (head r)]))"

text \<open>
  One round of a loop over entries: the bucket of the heads, the \<^verbatim>\<open>yield\<close> (in the
  loop over the query range), the bucket of the tails, which \<^verbatim>\<open>reverse()\<close> reverses in
  place.
\<close>

definition visit ::
  "bool \<Rightarrow> ('m, 'a) buckets \<Rightarrow> 'a entry
   \<Rightarrow> ('m, 'a) buckets \<times> ('m, 'a) item list \<times> ('m, 'a) event list
   \<Rightarrow> ('m, 'a) buckets \<times> ('m, 'a) item list \<times> ('m, 'a) event list" where
  "visit quiet hs e s =
     (let k = int (index e);
          st1 = fold (trigger quiet) (hs k) (snd s);
          st2 = (if quiet then st1 else (fst st1, snd st1 @ [Yield e]));
          b = rev (fst s k)
      in ((fst s)(k := b), fold (trigger quiet) b st2))"

text \<open>\<^verbatim>\<open>chron.head\<close> builds a new cursor at each call, so that \<^verbatim>\<open>range.head != chron.head\<close>
  is true for every range.\<close>

definition ChronMarkup_entries ::
  "('m, 'a) markup \<Rightarrow> 'a chron \<Rightarrow> ('m \<Rightarrow> 'a range \<Rightarrow> bool) option \<Rightarrow> bool \<Rightarrow> 'a range option
   \<Rightarrow> error + ('m, 'a) event list" where
  "ChronMarkup_entries mk c flt cov rng =
     bindE (ChronMarkup_iter mk) (\<lambda>live.
     bindE (register c flt (enumerate 0 live) (\<lambda>k. [], \<lambda>k. [])) (\<lambda>hb.
     bindE (case rng of None \<Rightarrow> Inr False | Some r \<Rightarrow> bindE (Chron_head c) (\<lambda>h. Inr True))
       (\<lambda>suppressHead.
     let hs = fst hb;
         st1 = fold (trigger suppressHead) (hs (- 1)) ([], []);
         b = rev (snd hb (- 1));
         s2 = ((snd hb)(- 1 := b), fold (trigger suppressHead) b st1)
     in bindE (case rng of
                 None \<Rightarrow> Inr s2
               | Some r \<Rightarrow>
                   bindE (Chron_head c) (\<lambda>h.
                   bindE (Chron_range c \<lparr>head = h, tail = head r\<rparr>) (\<lambda>es.
                     Inr (fold (visit True hs) es s2)))) (\<lambda>s3.
        bindE (case rng of None \<Rightarrow> Chron_entries c | Some r \<Rightarrow> Chron_range c r) (\<lambda>es.
        let rangeMayBeCoveredBy = fst (snd s3);
            s4 = fold (visit False hs) es s3
        in Inr (if cov
                then snd (snd s4) @
                     map (\<lambda>(i, d, r). Covered d r)
                       (filter (\<lambda>x. fst x \<in> fst ` set (fst (snd s4))) rangeMayBeCoveredBy)
                else snd (snd s4)))))))"


subsection \<open>The calls of an enumeration of the whole chron\<close>

text \<open>The triggers and yields of an enumeration as a list, and the calls they make
  from a given set \<^verbatim>\<open>markers\<close>.\<close>

fun emitted :: "(('m, 'a) item + 'a entry) list \<Rightarrow> ('m, 'a) item list \<Rightarrow> ('m, 'a) event list" where
  "emitted [] act = []"
| "emitted (Inr e # s) act = Yield e # emitted s act"
| "emitted (Inl it # s) act =
     (if fst it \<in> fst ` set act
      then Delete (fst (snd it)) (tail (snd (snd it))) # emitted s (filter (\<lambda>x. fst x \<noteq> fst it) act)
      else Add (fst (snd it)) (head (snd (snd it))) # emitted s (act @ [it]))"

fun active_after :: "(('m, 'a) item + 'a entry) list \<Rightarrow> ('m, 'a) item list \<Rightarrow> ('m, 'a) item list" where
  "active_after [] act = act"
| "active_after (Inr e # s) act = active_after s act"
| "active_after (Inl it # s) act =
     (if fst it \<in> fst ` set act
      then active_after s (filter (\<lambda>x. fst x \<noteq> fst it) act)
      else active_after s (act @ [it]))"

lemma emitted_append: "emitted (s @ s') act = emitted s act @ emitted s' (active_after s act)"
  by (induction s act rule: emitted.induct) simp_all

lemma active_after_append: "active_after (s @ s') act = active_after s' (active_after s act)"
  by (induction s act rule: active_after.induct) simp_all

fun ids :: "(('m, 'a) item + 'a entry) list \<Rightarrow> nat set" where
  "ids [] = {}"
| "ids (Inl it # s) = insert (fst it) (ids s)"
| "ids (Inr e # s) = ids s"

lemma ids_append [simp]: "ids (s @ s') = ids s \<union> ids s'"
  by (induction s rule: ids.induct) simp_all

lemma ids_map_Inl: "ids (map Inl its) = fst ` set its"
  by (induction its) simp_all

lemma active_other:
  "i \<notin> ids s \<Longrightarrow> i \<in> fst ` set (active_after s act) \<longleftrightarrow> i \<in> fst ` set act"
proof (induction s act rule: active_after.induct)
  case (3 it s act)
  from "3.prems" have ne: "i \<noteq> fst it" and i: "i \<notin> ids s"
    by simp_all
  from ne have f: "i \<in> fst ` set (filter (\<lambda>x. fst x \<noteq> fst it) act) \<longleftrightarrow> i \<in> fst ` set act"
    by force
  from ne have a: "i \<in> fst ` set (act @ [it]) \<longleftrightarrow> i \<in> fst ` set act"
    by auto
  show ?case
  proof (cases "fst it \<in> fst ` set act")
    case True
    with "3.IH"(1) [OF True i] f show ?thesis by simp
  next
    case False
    with "3.IH"(2) [OF False i] a show ?thesis by simp
  qed
qed simp_all

lemma trigger_step:
  "trigger False it (act, tr) = (active_after [Inl it] act, tr @ emitted [Inl it] act)"
  by (cases it) (simp add: trigger_def)

lemma trigger_play:
  "fold (trigger False) its (act, tr)
     = (active_after (map Inl its) act, tr @ emitted (map Inl its) act)"
proof (induction its arbitrary: act tr)
  case Nil
  show ?case by simp
next
  case (Cons it its)
  have "fold (trigger False) (it # its) (act, tr) =
      fold (trigger False) its (active_after [Inl it] act, tr @ emitted [Inl it] act)"
    by (simp only: fold_simps trigger_step)
  also have "\<dots> = (active_after ([Inl it] @ map Inl its) act,
      tr @ emitted ([Inl it] @ map Inl its) act)"
    by (simp only: Cons emitted_append active_after_append append_assoc)
  finally show ?case
    by simp
qed

definition round_of ::
  "('m, 'a) buckets \<Rightarrow> ('m, 'a) buckets \<Rightarrow> 'a entry \<Rightarrow> (('m, 'a) item + 'a entry) list" where
  "round_of hs ts e =
     map Inl (hs (int (index e))) @ Inr e # map Inl (rev (ts (int (index e))))"

lemma visit_play:
  "visit False hs e (ts, act, tr) =
     (ts(int (index e) := rev (ts (int (index e)))),
      active_after (round_of hs ts e) act, tr @ emitted (round_of hs ts e) act)"
  by (simp add: visit_def Let_def trigger_play round_of_def emitted_append active_after_append)

lemma fold_visit:
  "distinct (map index es) \<Longrightarrow> (\<forall>e \<in> set es. ts' (int (index e)) = ts (int (index e))) \<Longrightarrow>
   snd (fold (visit False hs) es (ts', act, tr)) =
     (active_after (concat (map (round_of hs ts) es)) act,
      tr @ emitted (concat (map (round_of hs ts) es)) act)"
proof (induction es arbitrary: ts' act tr)
  case Nil
  show ?case by simp
next
  case (Cons e es)
  let ?k = "int (index e)"
  let ?ts'' = "ts'(?k := rev (ts' ?k))"
  from Cons.prems have d: "distinct (map index es)" and ne: "\<forall>e' \<in> set es. index e' \<noteq> index e"
    by (auto simp: image_iff)
  from Cons.prems(2) ne have agree: "\<forall>e' \<in> set es. ?ts'' (int (index e')) = ts (int (index e'))"
    by simp
  from Cons.prems(2) have r: "round_of hs ts' e = round_of hs ts e"
    by (simp add: round_of_def)
  show ?case
    by (simp add: visit_play Cons.IH [OF d agree] r emitted_append active_after_append)
qed

text \<open>The key of the bucket of a cursor, and the buckets after the registration.\<close>

definition key_of :: "'a chron \<Rightarrow> 'a cursor \<Rightarrow> int" where
  "key_of c cur = (case bucket_key c cur of Inr k \<Rightarrow> k | Inl e \<Rightarrow> - 1)"

definition slots :: "'a chron \<Rightarrow> ('m, 'a) item \<Rightarrow> (bool \<times> int) list" where
  "slots c it =
     [(offset (head (snd (snd it))) < 0, key_of c (head (snd (snd it)))),
      (offset (tail (snd (snd it))) < 0, key_of c (tail (snd (snd it))))]"

definition bucket :: "'a chron \<Rightarrow> bool \<times> int \<Rightarrow> ('m, 'a) item list \<Rightarrow> ('m, 'a) item list" where
  "bucket c s its = concat (map (\<lambda>it. concat (map (\<lambda>s'. if s' = s then [it] else []) (slots c it))) its)"

lemma bucket_simps [simp]:
  "bucket c s [] = []"
  "bucket c s (it # its) = concat (map (\<lambda>s'. if s' = s then [it] else []) (slots c it)) @ bucket c s its"
  "bucket c s (its @ its') = bucket c s its @ bucket c s its'"
  by (simp_all add: bucket_def)

lemma bucket_subset: "set (bucket c s its) \<subseteq> set its"
  by (induction its) (auto simp: slots_def split: if_splits)

lemma bucket_key_ok:
  assumes "Chron_ok c"
  shows "bucket_key c cur = Inr (key_of c cur)"
proof -
  from assms obtain es full where wf: "chron_wf c es full"
    by (auto simp: Chron_ok_def)
  from wf_anchorOf [OF wf, of cur] obtain r where "Chron_anchorOf c cur = Inr r"
    by blast
  then show ?thesis
    by (simp add: key_of_def bucket_key_def)
qed

lemma push_marker_ok:
  assumes "Chron_ok c"
  shows "push_marker c cur it (hs, ts) =
           Inr (if offset cur < 0 then (hs(key_of c cur := hs (key_of c cur) @ [it]), ts)
                else (hs, ts(key_of c cur := ts (key_of c cur) @ [it])))"
  by (simp add: push_marker_def bucket_key_ok [OF assms])

definition item_of :: "nat \<times> ('m, 'a) marker \<Rightarrow> ('m, 'a) item" where
  "item_of im = (fst im, marker_data (snd im), the (marker_range (snd im)))"

lemma register_ok:
  assumes "Chron_ok c"
  shows "\<forall>im \<in> set ims. marker_range (snd im) \<noteq> None \<Longrightarrow>
         register c None ims (hs, ts) =
           Inr (\<lambda>k. hs k @ bucket c (True, k) (map item_of ims),
                \<lambda>k. ts k @ bucket c (False, k) (map item_of ims))"
proof (induction ims arbitrary: hs ts)
  case Nil
  show ?case by simp
next
  case (Cons im ims)
  obtain i m where im: "im = (i, m)"
    by (cases im)
  from Cons.prems im obtain r where r: "marker_range m = Some r"
    by auto
  from Cons.prems have rest: "\<forall>im \<in> set ims. marker_range (snd im) \<noteq> None"
    by simp
  have it: "item_of im = (i, marker_data m, r)"
    by (simp add: item_of_def im r)
  show ?case
    unfolding im register.simps r option.case
    by (simp add: push_marker_ok [OF assms] Cons.IH [OF rest] it [unfolded im] slots_def fun_eq_iff)
qed


lemma emitted_add:
  assumes "fst it \<notin> ids L" and "fst it \<notin> fst ` set act"
  shows "emitted (L @ Inl it # R) act =
         emitted L act @ Add (fst (snd it)) (head (snd (snd it))) #
           emitted R (active_after L act @ [it])"
  using assms by (simp add: emitted_append active_other)

lemma emitted_delete:
  assumes "fst it \<notin> ids L" and "fst it \<in> fst ` set act"
  shows "emitted (L @ Inl it # R) act =
         emitted L act @ Delete (fst (snd it)) (tail (snd (snd it))) #
           emitted R (filter (\<lambda>x. fst x \<noteq> fst it) (active_after L act))"
  using assms by (simp add: emitted_append active_other)

lemma emitted_collapsed:
  assumes "fst x \<notin> ids L"
  shows "\<exists>t1 t2. emitted (L @ Inl x # Inl x # R) [] =
           t1 @ Add (fst (snd x)) (head (snd (snd x))) #
                Delete (fst (snd x)) (tail (snd (snd x))) # t2"
proof -
  have "emitted (L @ Inl x # Inl x # R) [] =
      emitted L [] @ Add (fst (snd x)) (head (snd (snd x))) #
        emitted (Inl x # R) (active_after L [] @ [x])"
    using assms by (intro emitted_add) simp_all
  then show ?thesis
    by auto
qed

lemma emitted_nested:
  assumes xy: "fst x \<noteq> fst y"
    and x: "fst x \<notin> ids L1" "fst x \<notin> ids L2" "fst x \<notin> ids L3" "fst x \<notin> ids L4"
    and y: "fst y \<notin> ids L1" "fst y \<notin> ids L2" "fst y \<notin> ids L3"
  shows "\<exists>t1 t2 t3 t4 t5.
           emitted (L1 @ Inl x # L2 @ Inl y # L3 @ Inl y # L4 @ Inl x # L5) [] =
             t1 @ Add (fst (snd x)) (head (snd (snd x))) #
             t2 @ Add (fst (snd y)) (head (snd (snd y))) #
             t3 @ Delete (fst (snd y)) (tail (snd (snd y))) #
             t4 @ Delete (fst (snd x)) (tail (snd (snd x))) # t5"
proof -
  define a2 where "a2 = active_after L1 [] @ [x]"
  define a4 where "a4 = active_after L2 a2 @ [y]"
  define a6 where "a6 = filter (\<lambda>z. fst z \<noteq> fst y) (active_after L3 a4)"
  define a8 where "a8 = filter (\<lambda>z. fst z \<noteq> fst x) (active_after L4 a6)"
  have x2: "fst x \<in> fst ` set a2"
    by (simp add: a2_def)
  have y2: "fst y \<notin> fst ` set a2"
    using xy y(1) by (simp add: a2_def active_other)
  have x4: "fst x \<in> fst ` set a4"
    using x2 x(2) by (simp add: a4_def active_other)
  have y4: "fst y \<in> fst ` set a4"
    by (simp add: a4_def)
  have "fst x \<in> fst ` set (active_after L3 a4)"
    using x4 x(3) by (simp add: active_other)
  then obtain z where "z \<in> set (active_after L3 a4)" "fst z = fst x"
    by auto
  with xy have "z \<in> set a6"
    by (simp add: a6_def)
  with \<open>fst z = fst x\<close> have x6: "fst x \<in> fst ` set a6"
    by (metis imageI)
  have s1: "emitted (L1 @ Inl x # L2 @ Inl y # L3 @ Inl y # L4 @ Inl x # L5) [] =
      emitted L1 [] @ Add (fst (snd x)) (head (snd (snd x))) #
        emitted (L2 @ Inl y # L3 @ Inl y # L4 @ Inl x # L5) a2"
    unfolding a2_def using x(1) by (intro emitted_add) simp_all
  have s2: "emitted (L2 @ Inl y # L3 @ Inl y # L4 @ Inl x # L5) a2 =
      emitted L2 a2 @ Add (fst (snd y)) (head (snd (snd y))) #
        emitted (L3 @ Inl y # L4 @ Inl x # L5) a4"
    unfolding a4_def using y(2) y2 by (intro emitted_add)
  have s3: "emitted (L3 @ Inl y # L4 @ Inl x # L5) a4 =
      emitted L3 a4 @ Delete (fst (snd y)) (tail (snd (snd y))) #
        emitted (L4 @ Inl x # L5) a6"
    unfolding a6_def using y(3) y4 by (intro emitted_delete)
  have s4: "emitted (L4 @ Inl x # L5) a6 =
      emitted L4 a6 @ Delete (fst (snd x)) (tail (snd (snd x))) # emitted L5 a8"
    unfolding a8_def using x(4) x6 by (intro emitted_delete)
  show ?thesis
    unfolding s1 s2 s3 s4 by blast
qed

text \<open>The buckets in the order in which the enumeration of the whole chron fires them,
  with the yields between them.\<close>

definition sched_es :: "'a entry list \<Rightarrow> ((bool \<times> int) + 'a entry) list" where
  "sched_es es =
     concat (map (\<lambda>e. [Inl (True, int (index e)), Inr e, Inl (False, int (index e))]) es)"

definition sched :: "'a entry list \<Rightarrow> ((bool \<times> int) + 'a entry) list" where
  "sched es = Inl (True, - 1) # Inl (False, - 1) # sched_es es"

fun expand ::
  "'a chron \<Rightarrow> ('m, 'a) item list \<Rightarrow> (bool \<times> int) + 'a entry \<Rightarrow> (('m, 'a) item + 'a entry) list" where
  "expand c its (Inl s) = map Inl (if fst s then bucket c s its else rev (bucket c s its))"
| "expand c its (Inr e) = [Inr e]"

definition seq_of ::
  "'a chron \<Rightarrow> ('m, 'a) item list \<Rightarrow> ((bool \<times> int) + 'a entry) list
   \<Rightarrow> (('m, 'a) item + 'a entry) list" where
  "seq_of c its S = concat (map (expand c its) S)"

lemma sched_es_simps [simp]:
  "sched_es [] = []"
  "sched_es (e # es) = Inl (True, int (index e)) # Inr e # Inl (False, int (index e)) # sched_es es"
  "sched_es (es @ es') = sched_es es @ sched_es es'"
  by (simp_all add: sched_es_def)

lemma seq_of_simps [simp]:
  "seq_of c its [] = []"
  "seq_of c its (a # S) = expand c its a @ seq_of c its S"
  "seq_of c its (S @ S') = seq_of c its S @ seq_of c its S'"
  by (simp_all add: seq_of_def)

lemma seq_of_rounds:
  "seq_of c its (sched_es es) =
     concat (map (round_of (\<lambda>k. bucket c (True, k) its) (\<lambda>k. bucket c (False, k) its)) es)"
  by (induction es) (simp_all add: round_of_def)

lemma set_sched_es:
  "set (sched_es es) =
     (\<lambda>e. Inl (True, int (index e))) ` set es \<union> Inr ` set es \<union>
     (\<lambda>e. Inl (False, int (index e))) ` set es"
  by (induction es) auto

lemma distinct_sched_es: "distinct (map index es) \<Longrightarrow> distinct (sched_es es)"
  by (induction es) (auto simp: set_sched_es)

lemma distinct_sched: "distinct (map index es) \<Longrightarrow> distinct (sched es)"
  by (auto simp: sched_def distinct_sched_es set_sched_es)

lemma slot_in_sched:
  assumes "k = - 1 \<or> k \<in> (\<lambda>e. int (index e)) ` set es"
  shows "\<exists>S1 S2. sched es = S1 @ Inl (h, k) # S2"
proof -
  have "Inl (h, k) \<in> set (sched es)"
    using assms by (cases h) (auto simp: sched_def set_sched_es)
  then show ?thesis
    by (rule split_list)
qed

lemma slots_in_sched:
  assumes "ka = - 1 \<or> ka = kb \<and> kb \<in> (\<lambda>e. int (index e)) ` set es \<or>
           (\<exists>E1 ea E2 eb E3. es = E1 @ ea # E2 @ eb # E3 \<and> ka = int (index ea) \<and> kb = int (index eb))"
    and "kb = - 1 \<or> kb \<in> (\<lambda>e. int (index e)) ` set es"
  shows "\<exists>S1 S2 S3. sched es = S1 @ Inl (True, ka) # S2 @ Inl (False, kb) # S3"
proof -
  consider (root) "ka = - 1" "kb = - 1"
    | (first) e where "ka = - 1" "e \<in> set es" "kb = int (index e)"
    | (same) e where "e \<in> set es" "ka = int (index e)" "kb = int (index e)"
    | (apart) E1 ea E2 eb E3 where "es = E1 @ ea # E2 @ eb # E3" "ka = int (index ea)"
        "kb = int (index eb)"
    using assms by auto
  then show ?thesis
  proof cases
    case root
    then have "sched es = [] @ Inl (True, ka) # [] @ Inl (False, kb) # sched_es es"
      by (simp add: sched_def)
    then show ?thesis by blast
  next
    case first
    from first(2) obtain E1 E2 where "es = E1 @ e # E2"
      by (auto dest: split_list)
    with first have "sched es = [] @ Inl (True, ka) #
        (Inl (False, - 1) # sched_es E1 @ [Inl (True, kb), Inr e]) @ Inl (False, kb) # sched_es E2"
      by (simp add: sched_def)
    then show ?thesis by blast
  next
    case same
    from same(1) obtain E1 E2 where "es = E1 @ e # E2"
      by (auto dest: split_list)
    with same have "sched es = (Inl (True, - 1) # Inl (False, - 1) # sched_es E1) @
        Inl (True, ka) # [Inr e] @ Inl (False, kb) # sched_es E2"
      by (simp add: sched_def)
    then show ?thesis by blast
  next
    case apart
    then have "sched es = (Inl (True, - 1) # Inl (False, - 1) # sched_es E1) @
        Inl (True, ka) # (Inr ea # Inl (False, ka) # sched_es E2 @ [Inl (True, kb), Inr eb]) @
        Inl (False, kb) # sched_es E3"
      by (simp add: sched_def)
    then show ?thesis by blast
  qed
qed

lemma bucket_mem: "x \<in> set (bucket c s its) \<Longrightarrow> s \<in> set (slots c x)"
  by (induction its) (auto simp: slots_def split: if_splits)

lemma bucket_ids:
  assumes "distinct (map fst its)" and "x \<in> set its" and "s \<notin> set (slots c x)"
  shows "fst x \<notin> fst ` set (bucket c s its)"
proof
  assume "fst x \<in> fst ` set (bucket c s its)"
  then obtain y where y: "y \<in> set (bucket c s its)" and f: "fst y = fst x"
    by auto
  from y bucket_subset have "y \<in> set its"
    by blast
  with assms(1,2) f have "y = x"
    by (meson distinct_map inj_onD)
  with y have "s \<in> set (slots c x)"
    by (auto dest: bucket_mem)
  with assms(3) show False ..
qed

lemma seq_of_ids:
  assumes "distinct (map fst its)" and "x \<in> set its"
    and "\<forall>s. Inl s \<in> set S \<longrightarrow> s \<notin> set (slots c x)"
  shows "fst x \<notin> ids (seq_of c its S)"
  using assms(3)
proof (induction S)
  case Nil
  show ?case by simp
next
  case (Cons a S)
  then have rest: "fst x \<notin> ids (seq_of c its S)"
    by simp
  show ?case
  proof (cases a)
    case (Inl s)
    with Cons.prems have "s \<notin> set (slots c x)"
      by (cases s) auto
    from bucket_ids [OF assms(1,2) this] rest Inl show ?thesis
      by (simp add: ids_map_Inl)
  next
    case (Inr e)
    with rest show ?thesis by simp
  qed
qed

lemma part_ids:
  assumes "distinct (map fst (I @ J))" and "x \<in> set J"
  shows "fst x \<notin> fst ` set (bucket c s I)"
proof -
  from assms have "fst x \<notin> fst ` set I"
    by auto
  with bucket_subset [of c s I] show ?thesis
    by blast
qed

lemma part_ids':
  assumes "distinct (map fst (J @ I))" and "x \<in> set J"
  shows "fst x \<notin> fst ` set (bucket c s I)"
proof -
  from assms have "fst x \<notin> fst ` set I"
    by auto
  with bucket_subset [of c s I] show ?thesis
    by blast
qed


lemma bucket_other: "i \<notin> fst ` set I \<Longrightarrow> i \<notin> fst ` set (bucket c s I)"
  using bucket_subset [of c s I] by blast

lemma entries_facts:
  assumes "Chron_ok c"
  shows "\<exists>es. Chron_entries c = Inr es \<and> distinct (map index es) \<and>
              (\<forall>cur. key_of c cur = - 1 \<or> key_of c cur \<in> (\<lambda>e. int (index e)) ` set es)"
proof -
  from assms obtain es0 full where wf: "chron_wf c es0 full"
    by (auto simp: Chron_ok_def)
  define es where "es = map ((!) es0) (tl full)"
  from wf have ne: "full \<noteq> []" and z: "full ! 0 = 0" and d: "distinct full"
    and st: "set full = {..< length es0}"
    and idx: "\<And>i. i < length es0 \<Longrightarrow> index (es0 ! i) = i"
    by (simp_all add: chron_wf_def)
  have sub: "set (tl full) \<subseteq> {..< length es0}"
    using st ne by (cases full) auto
  have "map index es = tl full"
    unfolding es_def using sub idx by (simp add: map_idI subset_iff)
  with d have dist: "distinct (map index es)"
    by (simp add: distinct_tl)
  have keys: "key_of c cur = - 1 \<or> key_of c cur \<in> (\<lambda>e. int (index e)) ` set es" for cur
  proof -
    from wf_anchorOf [OF wf, of cur] obtain r where
      r: "Chron_anchorOf c cur = Inr r" and
      rk: "\<And>e. r = Some e \<Longrightarrow> \<exists>k < length full. e = es0 ! (full ! k)"
      by blast
    show ?thesis
    proof (cases r)
      case None
      with r show ?thesis
        by (simp add: key_of_def bucket_key_def)
    next
      case (Some e)
      with rk obtain k where k: "k < length full" "e = es0 ! (full ! k)"
        by blast
      show ?thesis
      proof (cases "index e = 0")
        case True
        with r Some show ?thesis
          by (simp add: key_of_def bucket_key_def)
      next
        case False
        from wf_at [OF wf k(1)] k(2) have ie: "index e = full ! k"
          by simp
        with False z have "k \<noteq> 0"
          by (cases k) auto
        with k(1) ne have "full ! k \<in> set (tl full)"
          by (cases full; cases k) auto
        then have "e \<in> set es"
          by (auto simp: es_def k(2))
        with r Some False show ?thesis
          by (auto simp: key_of_def bucket_key_def)
      qed
    qed
  qed
  from wf_entries [OF wf] dist keys show ?thesis
    unfolding es_def by blast
qed

definition items_of :: "('m, 'a) marker list \<Rightarrow> ('m, 'a) item list" where
  "items_of lms = map item_of (enumerate 0 lms)"

lemma items_of_ids: "map fst (items_of lms) = [0 ..< length lms]"
  by (simp add: items_of_def item_of_def comp_def map_fst_enumerate [symmetric, of 0 lms, simplified])

lemma items_of_nth:
  "k < length lms \<Longrightarrow> marker_range (lms ! k) = Some r \<Longrightarrow>
   items_of lms ! k = (k, marker_data (lms ! k), r)"
  by (simp add: items_of_def item_of_def nth_enumerate_eq)

lemma entries_whole:
  assumes ok: "Chron_ok c" and iter: "ChronMarkup_iter mk = Inr lms"
    and rs: "\<forall>m \<in> set lms. marker_range m \<noteq> None"
    and es: "Chron_entries c = Inr es" and dist: "distinct (map index es)"
  shows "\<exists>cv. ChronMarkup_entries mk c None cov None =
           Inr (emitted (seq_of c (items_of lms) (sched es)) [] @ cv)"
proof -
  let ?its = "items_of lms"
  let ?hs = "\<lambda>k. bucket c (True, k) ?its"
  let ?ts = "\<lambda>k. bucket c (False, k) ?its"
  have "\<forall>im \<in> set (enumerate 0 lms). marker_range (snd im) \<noteq> None"
    using rs by (auto simp: in_set_enumerate_eq)
  from register_ok [OF ok this, of "\<lambda>k. []" "\<lambda>k. []"]
  have reg: "register c None (enumerate 0 lms) (\<lambda>k. [], \<lambda>k. []) = Inr (?hs, ?ts)"
    by (simp add: items_of_def)
  have agree: "\<forall>e \<in> set es. (?ts(- 1 := rev (?ts (- 1)))) (int (index e)) = ?ts (int (index e))"
    by simp
  note fv = fold_visit [OF dist agree, of ?hs]
  have sq: "seq_of c ?its (sched es) =
      map Inl (?hs (- 1)) @ map Inl (rev (?ts (- 1))) @ concat (map (round_of ?hs ?ts) es)"
    by (simp add: sched_def seq_of_rounds)
  show ?thesis
    unfolding ChronMarkup_entries_def iter bindE_simps reg option.case Let_def es fst_conv snd_conv
      trigger_play fv sq
    by (simp add: emitted_append active_after_append)
qed

lemma has_live:
  assumes "has mk ms" and "ChronMarkup_iter mk = Inr lms"
  shows "\<forall>m \<in> set lms. marker_range m \<noteq> None"
  using assms iter_list [OF assms(1)] by auto

lemma split_two:
  assumes "i < j" and "j < length xs"
  shows "\<exists>I1 I2 I3. xs = I1 @ xs ! i # I2 @ xs ! j # I3"
proof -
  from assms have i: "i < length xs"
    by simp
  define R where "R = drop (Suc i) xs"
  from assms have j: "j - Suc i < length R" and n: "R ! (j - Suc i) = xs ! j"
    by (simp_all add: R_def)
  have "xs = take i xs @ xs ! i # R"
    unfolding R_def using i by (rule id_take_nth_drop)
  moreover have "R = take (j - Suc i) R @ R ! (j - Suc i) # drop (Suc (j - Suc i)) R"
    using j by (rule id_take_nth_drop)
  ultimately have "xs = take i xs @ xs ! i # take (j - Suc i) R @ xs ! j # drop (Suc (j - Suc i)) R"
    by (simp only: n)
  then show ?thesis
    by blast
qed

lemma nested_calls:
  fixes c :: "'a chron" and lms :: "('m, 'a) marker list"
  assumes ok: "Chron_ok c" and iter: "ChronMarkup_iter mk = Inr lms"
    and rs: "\<forall>m \<in> set lms. marker_range m \<noteq> None"
    and es: "Chron_entries c = Inr es"
    and ij: "i < j" "j < length lms"
    and ri: "marker_range (lms ! i) = Some ri" and rj: "marker_range (lms ! j) = Some rj"
    and hi: "offset (head ri) < 0" and hj: "offset (head rj) < 0"
    and ti: "0 \<le> offset (tail ri)" and tj: "0 \<le> offset (tail rj)"
    and ka: "bucket_key c (head ri) = Inr ka" "bucket_key c (head rj) = Inr ka"
    and kb: "bucket_key c (tail ri) = Inr kb" "bucket_key c (tail rj) = Inr kb"
    and ord: "ka = - 1 \<or> ka = kb \<or>
         (\<exists>E1 ea E2 eb E3. es = E1 @ ea # E2 @ eb # E3 \<and> ka = int (index ea) \<and> kb = int (index eb))"
  shows "\<exists>t1 t2 t3 t4 t5. ChronMarkup_entries mk c None cov None =
           Inr (t1 @ Add (marker_data (lms ! i)) (head ri) #
                t2 @ Add (marker_data (lms ! j)) (head rj) #
                t3 @ Delete (marker_data (lms ! j)) (tail rj) #
                t4 @ Delete (marker_data (lms ! i)) (tail ri) # t5)"
proof -
  let ?its = "items_of lms"
  define x where "x = (i, marker_data (lms ! i), ri)"
  define y where "y = (j, marker_data (lms ! j), rj)"
  from entries_facts [OF ok] es have dist: "distinct (map index es)"
    and keys: "\<And>cur. key_of c cur = - 1 \<or> key_of c cur \<in> (\<lambda>e. int (index e)) ` set es"
    by auto
  from ka kb have k: "key_of c (head ri) = ka" "key_of c (head rj) = ka"
    "key_of c (tail ri) = kb" "key_of c (tail rj) = kb"
    by (simp_all add: key_of_def)
  from hi ti k have sx: "slots c x = [(True, ka), (False, kb)]"
    by (simp add: slots_def x_def)
  from hj tj k have sy: "slots c y = [(True, ka), (False, kb)]"
    by (simp add: slots_def y_def)
  from ij have il: "i < length lms"
    by simp
  from ij have len: "j < length ?its"
    by (simp add: items_of_def)
  from split_two [OF ij(1) len] items_of_nth [OF il ri] items_of_nth [OF ij(2) rj]
  obtain I1 I2 I3 where its: "?its = I1 @ x # I2 @ y # I3"
    unfolding x_def y_def by auto
  have "distinct (map fst ?its)"
    by (simp add: items_of_ids)
  then have d: "distinct (map fst (I1 @ x # I2 @ y # I3))"
    by (simp only: its)
  then have xy: "fst x \<noteq> fst y"
    and x1: "fst x \<notin> fst ` set I1" and x2: "fst x \<notin> fst ` set I2" and x3: "fst x \<notin> fst ` set I3"
    and y1: "fst y \<notin> fst ` set I1" and y2: "fst y \<notin> fst ` set I2" and y3: "fst y \<notin> fst ` set I3"
    by auto
  have xin: "x \<in> set ?its" and yin: "y \<in> set ?its"
    by (simp_all add: its)
  from keys [of "tail ri"] k have kbk: "kb = - 1 \<or> kb \<in> (\<lambda>e. int (index e)) ` set es"
    by simp
  from ord kbk have "ka = - 1 \<or> ka = kb \<and> kb \<in> (\<lambda>e. int (index e)) ` set es \<or>
      (\<exists>E1 ea E2 eb E3. es = E1 @ ea # E2 @ eb # E3 \<and> ka = int (index ea) \<and> kb = int (index eb))"
    by auto
  from slots_in_sched [OF this kbk] obtain S1 S2 S3 where
    sch: "sched es = S1 @ Inl (True, ka) # S2 @ Inl (False, kb) # S3"
    by blast
  from distinct_sched [OF dist] have "distinct (S1 @ Inl (True, ka) # S2 @ Inl (False, kb) # S3)"
    by (simp only: sch)
  then have free: "\<forall>s. Inl s \<in> set S1 \<union> set S2 \<longrightarrow> s \<notin> {(True, ka), (False, kb)}"
    by auto
  have nox: "fst x \<notin> ids (seq_of c ?its S)" and noy: "fst y \<notin> ids (seq_of c ?its S)"
    if "set S \<subseteq> set S1 \<union> set S2" for S
  proof -
    from that free have "\<forall>s. Inl s \<in> set S \<longrightarrow> s \<notin> set (slots c x)"
      by (auto simp: sx)
    then show "fst x \<notin> ids (seq_of c ?its S)"
      using \<open>distinct (map fst ?its)\<close> xin by (intro seq_of_ids) simp_all
    from that free have "\<forall>s. Inl s \<in> set S \<longrightarrow> s \<notin> set (slots c y)"
      by (auto simp: sy)
    then show "fst y \<notin> ids (seq_of c ?its S)"
      using \<open>distinct (map fst ?its)\<close> yin by (intro seq_of_ids) simp_all
  qed
  define P1 where "P1 = bucket c (True, ka) I1"
  define P2 where "P2 = bucket c (True, ka) I2"
  define P3 where "P3 = bucket c (True, ka) I3"
  define Q1 where "Q1 = bucket c (False, kb) I1"
  define Q2 where "Q2 = bucket c (False, kb) I2"
  define Q3 where "Q3 = bucket c (False, kb) I3"
  have bh: "bucket c (True, ka) ?its = P1 @ x # P2 @ y # P3"
    by (simp add: its sx sy P1_def P2_def P3_def)
  have bt: "bucket c (False, kb) ?its = Q1 @ x # Q2 @ y # Q3"
    by (simp add: its sx sy Q1_def Q2_def Q3_def)
  define L1 where "L1 = seq_of c ?its S1 @ map Inl P1"
  define L2 where "L2 = (map Inl P2 :: (('m, 'a) item + 'a entry) list)"
  define L3 where "L3 = map Inl P3 @ seq_of c ?its S2 @ map Inl (rev Q3)"
  define L4 where "L4 = (map Inl (rev Q2) :: (('m, 'a) item + 'a entry) list)"
  define L5 where "L5 = map Inl (rev Q1) @ seq_of c ?its S3"
  have sq: "seq_of c ?its (sched es) = L1 @ Inl x # L2 @ Inl y # L3 @ Inl y # L4 @ Inl x # L5"
    by (simp add: sch bh bt L1_def L2_def L3_def L4_def L5_def)
  have px: "fst x \<notin> ids L1" "fst x \<notin> ids L2" "fst x \<notin> ids L3" "fst x \<notin> ids L4"
    using nox [of S1] nox [of S2] x1 x2 x3
    by (simp_all add: L1_def L2_def L3_def L4_def ids_map_Inl P1_def P2_def P3_def Q2_def Q3_def
          bucket_other)
  have py: "fst y \<notin> ids L1" "fst y \<notin> ids L2" "fst y \<notin> ids L3"
    using noy [of S1] noy [of S2] y1 y2 y3
    by (simp_all add: L1_def L2_def L3_def ids_map_Inl P1_def P2_def P3_def Q3_def bucket_other)
  from emitted_nested [OF xy px py, of L5] obtain t1 t2 t3 t4 t5 where
    em: "emitted (seq_of c ?its (sched es)) [] =
      t1 @ Add (marker_data (lms ! i)) (head ri) #
      t2 @ Add (marker_data (lms ! j)) (head rj) #
      t3 @ Delete (marker_data (lms ! j)) (tail rj) #
      t4 @ Delete (marker_data (lms ! i)) (tail ri) # t5"
    unfolding sq by (auto simp: x_def y_def)
  from entries_whole [OF ok iter rs es dist, of cov] obtain cv where
    "ChronMarkup_entries mk c None cov None = Inr (emitted (seq_of c ?its (sched es)) [] @ cv)"
    by blast
  then have "ChronMarkup_entries mk c None cov None =
      Inr (t1 @ Add (marker_data (lms ! i)) (head ri) #
           t2 @ Add (marker_data (lms ! j)) (head rj) #
           t3 @ Delete (marker_data (lms ! j)) (tail rj) #
           t4 @ Delete (marker_data (lms ! i)) (tail ri) # (t5 @ cv))"
    by (simp add: em)
  then show ?thesis
    by blast
qed

lemma collapsed_calls:
  assumes ok: "Chron_ok c" and iter: "ChronMarkup_iter mk = Inr lms"
    and rs: "\<forall>m \<in> set lms. marker_range m \<noteq> None"
    and es: "Chron_entries c = Inr es"
    and k: "k < length lms" and r: "marker_range (lms ! k) = Some r"
    and col: "head r = tail r"
  shows "\<exists>t1 t2. ChronMarkup_entries mk c None cov None =
           Inr (t1 @ Add (marker_data (lms ! k)) (head r) #
                Delete (marker_data (lms ! k)) (tail r) # t2)"
proof -
  let ?its = "items_of lms"
  define x where "x = (k, marker_data (lms ! k), r)"
  define s where "s = (offset (head r) < 0, key_of c (head r))"
  from entries_facts [OF ok] es have dist: "distinct (map index es)"
    and keys: "\<And>cur. key_of c cur = - 1 \<or> key_of c cur \<in> (\<lambda>e. int (index e)) ` set es"
    by auto
  have sx: "slots c x = [s, s]"
    by (simp add: slots_def x_def s_def col)
  from k have len: "k < length ?its"
    by (simp add: items_of_def)
  from id_take_nth_drop [OF len] items_of_nth [OF k r]
  obtain I1 I2 where its: "?its = I1 @ x # I2"
    unfolding x_def by auto
  have di: "distinct (map fst ?its)"
    by (simp add: items_of_ids)
  then have "distinct (map fst (I1 @ x # I2))"
    by (simp only: its)
  then have x1: "fst x \<notin> fst ` set I1" and x2: "fst x \<notin> fst ` set I2"
    by auto
  have xin: "x \<in> set ?its"
    by (simp add: its)
  from slot_in_sched [OF keys [of "head r"], where h = "offset (head r) < 0"] obtain S1 S2 where
    sch: "sched es = S1 @ Inl s # S2"
    unfolding s_def by blast
  from distinct_sched [OF dist] have "distinct (S1 @ Inl s # S2)"
    by (simp only: sch)
  then have "\<forall>s'. Inl s' \<in> set S1 \<longrightarrow> s' \<notin> set (slots c x)"
    by (auto simp: sx)
  with di xin have n1: "fst x \<notin> ids (seq_of c ?its S1)"
    by (intro seq_of_ids) simp_all
  define P1 where "P1 = bucket c s I1"
  define P2 where "P2 = bucket c s I2"
  have b: "bucket c s ?its = P1 @ x # x # P2"
    by (simp add: its sx P1_def P2_def)
  have "\<exists>L R. seq_of c ?its (sched es) = L @ Inl x # Inl x # R \<and> fst x \<notin> ids L"
  proof (cases "fst s")
    case True
    then have "seq_of c ?its (sched es) =
        (seq_of c ?its S1 @ map Inl P1) @ Inl x # Inl x # (map Inl P2 @ seq_of c ?its S2)"
      by (simp add: sch b)
    moreover have "fst x \<notin> ids (seq_of c ?its S1 @ map Inl P1)"
      using n1 x1 by (simp add: ids_map_Inl P1_def bucket_other)
    ultimately show ?thesis
      by blast
  next
    case False
    then have "seq_of c ?its (sched es) =
        (seq_of c ?its S1 @ map Inl (rev P2)) @ Inl x # Inl x # (map Inl (rev P1) @ seq_of c ?its S2)"
      by (simp add: sch b)
    moreover have "fst x \<notin> ids (seq_of c ?its S1 @ map Inl (rev P2))"
      using n1 x2 by (simp add: ids_map_Inl P2_def bucket_other)
    ultimately show ?thesis
      by blast
  qed
  then obtain L R where sq: "seq_of c ?its (sched es) = L @ Inl x # Inl x # R"
    and nl: "fst x \<notin> ids L"
    by blast
  from emitted_collapsed [OF nl, of R] obtain t1 t2 where
    em: "emitted (seq_of c ?its (sched es)) [] =
      t1 @ Add (marker_data (lms ! k)) (head r) # Delete (marker_data (lms ! k)) (tail r) # t2"
    unfolding sq by (auto simp: x_def)
  from entries_whole [OF ok iter rs es dist, of cov] obtain cv where
    "ChronMarkup_entries mk c None cov None = Inr (emitted (seq_of c ?its (sched es)) [] @ cv)"
    by blast
  then have "ChronMarkup_entries mk c None cov None =
      Inr (t1 @ Add (marker_data (lms ! k)) (head r) #
           Delete (marker_data (lms ! k)) (tail r) # (t2 @ cv))"
    by (simp add: em)
  then show ?thesis
    by blast
qed



text \<open>Three markers on the chron of 5 and 6: two around both entries, one collapsed
  after the first entry.\<close>

definition around56 :: "nat range" where
  "around56 = \<lparr>head = entry_head entry5, tail = entry_tail entry6\<rparr>"

definition after5 :: "nat range" where
  "after5 = \<lparr>head = entry_tail entry5, tail = entry_tail entry5\<rparr>"

definition three_marks :: "(nat \<times> nat range option) list" where
  "three_marks = [(1, Some around56), (2, Some around56), (3, Some after5)]"

definition three_markers :: "(nat, nat) marker list" where
  "three_markers = [\<lparr>marker_data = 1, marker_range = Some around56\<rparr>,
                    \<lparr>marker_data = 2, marker_range = Some around56\<rparr>,
                    \<lparr>marker_data = 3, marker_range = Some after5\<rparr>]"

definition markup3 :: "(nat, nat) markup" where
  "markup3 = projr (marks three_marks ChronMarkup_empty)"

lemma markup3_built: "marks three_marks ChronMarkup_empty = Inr markup3"
  by code_simp

lemma markup3_iter: "ChronMarkup_iter markup3 = Inr three_markers"
  by code_simp

lemma keys56:
  "bucket_key chron56 (entry_head entry5) = Inr 1"
  "bucket_key chron56 (entry_tail entry6) = Inr 2"
  by code_simp+

lemma order56:
  "\<exists>E1 ea E2 eb E3. [entry5, entry6] = E1 @ ea # E2 @ eb # E3 \<and>
     (1 :: int) = int (index ea) \<and> (2 :: int) = int (index eb)"
  by (intro exI [of _ "[]"] exI [of _ entry5] exI [of _ entry6])
     (simp add: entry5_def entry6_def)

lemma markup3_entries:
  "ChronMarkup_entries markup3 chron56 None False None =
     Inr [Add 1 (entry_head entry5), Add 2 (entry_head entry5), Yield entry5,
          Add 3 (entry_tail entry5), Delete 3 (entry_tail entry5), Yield entry6,
          Delete 2 (entry_tail entry6), Delete 1 (entry_tail entry6)]"
  by code_simp


text \<open>Two markers of one range whose two cursors have offset \<open>+1\<close>: the second marker
  is opened first and closed first.\<close>

definition after5_after6 :: "nat range" where
  "after5_after6 = \<lparr>head = entry_tail entry5, tail = entry_tail entry6\<rparr>"



section \<open>Serializer (binarizer): the index pass of \<^verbatim>\<open>encode\<close>\<close>

text \<open>
  Values of the host language: primitives, and objects by reference into a heap. An
  object is an array, a \<^verbatim>\<open>Set\<close>, a \<^verbatim>\<open>Map\<close> (both in insertion order), or an object with
  the name of its constructor and its own enumerable properties; a plain object has the
  constructor \<^verbatim>\<open>Object\<close>. The registry \<^verbatim>\<open>Custom._constructorToTag\<close> gives the tag of a
  registered constructor, with the \<^verbatim>\<open>noindex\<close> flag of its coder.
\<close>

datatype jsval = JUndefined | JNull | JBool bool | JNum int | JStr string | JObj nat

datatype jsobj =
  JArray "jsval list"
| JSet "jsval list"
| JMap "(jsval \<times> jsval) list"
| JRecord string "(string \<times> jsval) list"

type_synonym registry = "(string \<times> string \<times> bool) list"

record indexer =
  refcount :: "(jsval \<times> int) list"
  queue :: "nat list"

definition new_Indexer :: indexer where
  "new_Indexer = \<lparr>refcount = [], queue = []\<rparr>"

text \<open>\<^verbatim>\<open>CountMap\<close>: a \<^verbatim>\<open>Map\<close> from values to counts, in insertion order.\<close>

definition CountMap_has :: "(jsval \<times> int) list \<Rightarrow> jsval \<Rightarrow> bool" where
  "CountMap_has m k = (map_of m k \<noteq> None)"

definition CountMap_set :: "(jsval \<times> int) list \<Rightarrow> jsval \<Rightarrow> int \<Rightarrow> (jsval \<times> int) list" where
  "CountMap_set m k n =
     (if CountMap_has m k then map (\<lambda>(k', n'). if k' = k then (k', n) else (k', n')) m
      else m @ [(k, n)])"

definition CountMap_inc :: "(jsval \<times> int) list \<Rightarrow> jsval \<Rightarrow> (jsval \<times> int) list" where
  "CountMap_inc m k = CountMap_set m k (case map_of m k of None \<Rightarrow> 1 | Some n \<Rightarrow> n + 1)"

definition constructor_of :: "jsobj \<Rightarrow> string" where
  "constructor_of ob =
     (case ob of JArray xs \<Rightarrow> ''Array'' | JSet xs \<Rightarrow> ''Set'' | JMap kvs \<Rightarrow> ''Map''
      | JRecord c props \<Rightarrow> c)"

text \<open>
  \<^verbatim>\<open>Indexer._add\<close>. \<^verbatim>\<open>typeof null\<close> is \<^verbatim>\<open>'object'\<close>: for \<^verbatim>\<open>null\<close> the branch of the
  objects runs, and \<^verbatim>\<open>Object.getPrototypeOf(null)\<close> is a \<open>TypeError\<close>.
\<close>

definition Indexer_add :: "registry \<Rightarrow> jsobj list \<Rightarrow> jsval \<Rightarrow> indexer \<Rightarrow> error + indexer" where
  "Indexer_add reg heap v ix =
     (case v of
        JObj a \<Rightarrow>
          if CountMap_has (refcount ix) v then Inr (ix\<lparr>refcount := CountMap_inc (refcount ix) v\<rparr>)
          else if \<not> a < length heap then Inl TypeError
          else
            let entry = map_of reg (constructor_of (heap ! a));
                counts = (case entry of
                            None \<Rightarrow> refcount ix
                          | Some (tag, noindex) \<Rightarrow> CountMap_set (refcount ix) (JStr tag) 1000000000)
            in Inr \<lparr>refcount = CountMap_inc counts v,
                    queue = (case entry of
                               Some (tag, True) \<Rightarrow> queue ix
                             | _ \<Rightarrow> queue ix @ [a])\<rparr>
      | JNull \<Rightarrow>
          if CountMap_has (refcount ix) v then Inr (ix\<lparr>refcount := CountMap_inc (refcount ix) v\<rparr>)
          else Inl TypeError
      | JStr s \<Rightarrow>
          if length s > 2 then Inr (ix\<lparr>refcount := CountMap_inc (refcount ix) v\<rparr>) else Inr ix
      | _ \<Rightarrow> Inr ix)"

fun add_all :: "registry \<Rightarrow> jsobj list \<Rightarrow> jsval list \<Rightarrow> indexer \<Rightarrow> error + indexer" where
  "add_all reg heap [] ix = Inr ix"
| "add_all reg heap (v # vs) ix = bindE (Indexer_add reg heap v ix) (add_all reg heap vs)"

text \<open>One round of the loop of \<^verbatim>\<open>_index\<close> for the object popped from the queue.\<close>

definition index_object :: "registry \<Rightarrow> jsobj list \<Rightarrow> jsobj \<Rightarrow> indexer \<Rightarrow> error + indexer" where
  "index_object reg heap ob ix =
     (case ob of
        JSet es \<Rightarrow> add_all reg heap es ix
      | JMap kvs \<Rightarrow> add_all reg heap (concat (map (\<lambda>(k, v). [v, k]) kvs)) ix
      | JArray xs \<Rightarrow> add_all reg heap xs ix
      | JRecord c props \<Rightarrow>
          (case map_of reg c of
             None \<Rightarrow>
               if c \<noteq> ''Object'' then Inl UnknownPrototype
               else add_all reg heap (concat (map (\<lambda>(key, v). [JStr key, v]) props)) ix
           | Some t \<Rightarrow> add_all reg heap (map snd props) ix))"

text \<open>The loop \<^verbatim>\<open>while (this._queue.length > 0)\<close>. An object enters the queue once, when
  it gets its first count; the fuel is the number of the objects of the heap.\<close>

fun index_loop :: "nat \<Rightarrow> registry \<Rightarrow> jsobj list \<Rightarrow> indexer \<Rightarrow> error + indexer" where
  "index_loop n reg heap ix =
     (if queue ix = [] then Inr ix
      else case n of
        0 \<Rightarrow> Inl Diverges
      | Suc m \<Rightarrow>
          bindE (index_object reg heap (heap ! last (queue ix)) (ix\<lparr>queue := butlast (queue ix)\<rparr>))
            (index_loop m reg heap))"

definition Indexer_index :: "registry \<Rightarrow> jsobj list \<Rightarrow> jsval \<Rightarrow> indexer \<Rightarrow> error + indexer" where
  "Indexer_index reg heap v ix =
     bindE (Indexer_add reg heap v ix) (\<lambda>ix1.
     bindE (index_loop (length heap) reg heap ix1) (\<lambda>ix2.
       Inr (ix2\<lparr>refcount := CountMap_inc (refcount ix2) v\<rparr>)))"

text \<open>\<^verbatim>\<open>CountMap.flatten\<close>: the keys by descending count; the sort is stable.\<close>

definition Indexer_flatten :: "indexer \<Rightarrow> jsval list" where
  "Indexer_flatten ix = map fst (sort_key (\<lambda>(k, n). - n) (refcount ix))"

text \<open>
  Claim C1. \<^verbatim>\<open>encode(x)\<close> begins with \<^verbatim>\<open>indexer.index(x)\<close>. For an array that holds
  \<^verbatim>\<open>null\<close>, for a plain object with a property that is \<^verbatim>\<open>null\<close>, and for \<^verbatim>\<open>null\<close>
  itself, this call ends with a \<open>TypeError\<close>, so that \<^verbatim>\<open>encode\<close> returns no buffer
  (the coders have \<^verbatim>\<open>Coders.NULL\<close> for the value). The same array with \<^verbatim>\<open>undefined\<close> in
  the place of \<^verbatim>\<open>null\<close> is indexed.
\<close>

theorem index_null_TypeError:
  "Indexer_index [] [JArray [JNull]] (JObj 0) new_Indexer = Inl TypeError \<and>
   Indexer_index [] [JRecord ''Object'' [(''a'', JNull)]] (JObj 0) new_Indexer = Inl TypeError \<and>
   Indexer_index [] [] JNull new_Indexer = Inl TypeError \<and>
   map_sum id Indexer_flatten (Indexer_index [] [JArray [JUndefined]] (JObj 0) new_Indexer)
     = Inr [JObj 0]"
  by code_simp


end
